theory Spec2Isabelle
  imports Main
begin

section \<open>The YAML streaming cursor of jsoncons (\<^verbatim>\<open>jsoncons_ext/yaml/yaml_cursor.hpp\<close>)\<close>

text \<open>
  The class \<^verbatim>\<open>basic_yaml_cursor\<close> binds a byte source to an incremental parser, refills a
  buffer on demand, skips a leading byte-order mark once, and exposes the parsed events
  either one at a time (\<^verbatim>\<open>current\<close>/\<^verbatim>\<open>next\<close>) or forwarded to a visitor (\<^verbatim>\<open>read_to\<close>).

  The parser (\<^verbatim>\<open>basic_json_parser\<close>), the source (\<^verbatim>\<open>stream_source\<close>), the event cache
  (\<^verbatim>\<open>basic_staj_visitor\<close>) and \<^verbatim>\<open>unicons::skip_bom\<close> are collaborators whose code is
  not part of the cursor's file. They are parameters of the model: every function of the
  cursor takes a record of their operations and works for any choice of them.
\<close>

subsection \<open>Error codes and exceptions\<close>

text \<open>
  A \<^verbatim>\<open>std::error_code\<close> is an \<open>error_code option\<close>: \<open>None\<close> is the zero code that
  \<^verbatim>\<open>if (ec)\<close> reads as false. The cursor itself only ever produces
  \<^verbatim>\<open>yaml_errc::source_error\<close>; the other codes come from \<^verbatim>\<open>skip_bom\<close> and the parser.
\<close>

datatype error_code = source_error | encoding_error nat | parse_error nat

text \<open>\<^verbatim>\<open>ser_error(ec, line, column)\<close>, the exception of the throwing forms.\<close>

datatype ser_error = ser_error error_code nat nat

text \<open>
  What a throwing member function does: it returns, or it throws with the object left
  in the state it had at the \<^verbatim>\<open>throw\<close>.
\<close>

datatype 'a outcome = Returned 'a | Thrown ser_error 'a

subsection \<open>The collaborators\<close>

text \<open>
  A call \<^verbatim>\<open>parser_.parse_some(visitor, ec)\<close> talks to its visitor only by calling it with
  an event and reading the boolean it returns (continue or stop). Such a call is a tree:
  it either returns with a new parser state and possibly an error code, or it hands an
  event to the visitor and continues according to the answer.
\<close>

datatype ('p, 'ev) parse_run =
    Ret 'p "error_code option"
  | Emit 'ev "bool \<Rightarrow> ('p, 'ev) parse_run"

text \<open>
  A visitor (\<^verbatim>\<open>basic_json_visitor\<close>) with state \<open>'s\<close>: given an event it returns whether the
  parser may continue, and its new state.
\<close>

type_synonym ('ev, 's) json_visitor = "'ev \<Rightarrow> 's \<Rightarrow> bool \<times> 's"

record ('c, 'src, 'p, 'ev) collaborators =
  src_default :: "'src"
  src_read :: "nat \<Rightarrow> 'src \<Rightarrow> 'c list \<times> 'src"
  src_eof :: "'src \<Rightarrow> bool"
  src_is_error :: "'src \<Rightarrow> bool"
  skip_bom :: "'c list \<Rightarrow> nat \<times> error_code option"
  p_new :: "'p"
  p_update :: "'c list \<Rightarrow> 'p \<Rightarrow> 'p"
  p_restart :: "'p \<Rightarrow> 'p"
  p_stopped :: "'p \<Rightarrow> bool"
  p_done :: "'p \<Rightarrow> bool"
  p_source_exhausted :: "'p \<Rightarrow> bool"
  p_parse_some :: "'p \<Rightarrow> ('p, 'ev) parse_run"
  p_check_done :: "'p \<Rightarrow> 'p \<times> error_code option"
  p_line :: "'p \<Rightarrow> nat"
  p_column :: "'p \<Rightarrow> nat"
  staj_new :: "'ev"
  staj_visit :: "('ev, 'ev) json_visitor"
  buf_max_size :: nat

text \<open>
  \<open>buf_max_size\<close> is \<^verbatim>\<open>max_size()\<close> of the vector \<^verbatim>\<open>buffer_\<close>, which its allocator decides; it
  is not below the 16384 units that the stream constructors reserve.
\<close>

text \<open>
  Running a \<^verbatim>\<open>parse_some\<close> call against a visitor \<open>v\<close> in state \<open>s\<close>: the parser state it
  leaves, the error code it sets (if any), and the visitor's final state.
\<close>

primrec deliver :: "('p, 'ev) parse_run \<Rightarrow> ('ev, 's) json_visitor \<Rightarrow> 's \<Rightarrow> 'p \<times> error_code option \<times> 's" where
  "deliver (Ret p e) v s = (p, e, s)"
| "deliver (Emit ev k) v s = (case v ev s of (b, s') \<Rightarrow> deliver (k b) v s')"

text \<open>
  A callee that is handed \<^verbatim>\<open>std::error_code& ec\<close> overwrites it when it fails and leaves
  it alone otherwise.
\<close>

definition set_ec :: "error_code option \<Rightarrow> error_code option \<Rightarrow> error_code option" where
  "set_ec e ec = (case e of Some x \<Rightarrow> Some x | None \<Rightarrow> ec)"

text \<open>
  Modelled from the spec: \<^verbatim>\<open>staj_to_saj_event\<close> (declared in \<^verbatim>\<open>jsoncons/staj_cursor.hpp\<close>,
  which is not among the sources). It replays one cached event into a visitor and returns
  the visitor's answer.
\<close>

definition staj_to_saj_event :: "'ev \<Rightarrow> ('ev, 's) json_visitor \<Rightarrow> 's \<Rightarrow> bool \<times> 's" where
  "staj_to_saj_event ev v s = v ev s"

subsection \<open>The cursor\<close>

record ('c, 'src, 'p, 'ev) yaml_cursor =
  m_source :: "'src"
  m_parser :: "'p"
  m_cursor_visitor :: "'ev"
  m_buffer :: "'c list"
  m_buffer_length :: nat
  m_eof :: bool
  m_begin :: bool
  m_capacity :: nat

text \<open>
  \<open>m_capacity\<close> is the capacity of the vector \<^verbatim>\<open>buffer_\<close>. The tokenizer is handed its input
  by address (\<^verbatim>\<open>parser_.update(buffer_.data() + offset, ...)\<close>): in the stream variant its
  pending input lies in the storage of \<^verbatim>\<open>buffer_\<close>. The stream constructors reserve 16384
  units and every assignment of \<^verbatim>\<open>buffer_length_\<close> is followed by a \<^verbatim>\<open>reserve\<close>, so that the
  \<^verbatim>\<open>resize(buffer_length_)\<close> of \<^verbatim>\<open>read_buffer\<close> stays within the capacity unless a \<^verbatim>\<open>reserve\<close>
  has thrown.
\<close>

definition default_max_buffer_length :: nat where
  "default_max_buffer_length = 16384"

definition buffer_length :: "('c, 'src, 'p, 'ev) yaml_cursor \<Rightarrow> nat" where
  "buffer_length c = m_buffer_length c"

text \<open>
  \<^verbatim>\<open>buffer_length(std::size_t)\<close> assigns \<^verbatim>\<open>buffer_length_\<close> and then calls
  \<^verbatim>\<open>buffer_.reserve(buffer_length_)\<close>. The call ends in one of three ways:
  \<^item> \<open>Length_error\<close>: the length is above \<^verbatim>\<open>max_size()\<close> and \<^verbatim>\<open>reserve\<close> throws
    \<^verbatim>\<open>std::length_error\<close>, after the assignment;
  \<^item> \<open>Reallocated\<close>: the length is above the capacity, and \<^verbatim>\<open>reserve\<close> moves the vector to
    new storage and frees the old one. The address that \<^verbatim>\<open>read_buffer\<close> handed to the
    tokenizer is then dangling: if the tokenizer still has input pending there, the next
    \<^verbatim>\<open>parse_some\<close> or \<^verbatim>\<open>check_done\<close> reads freed storage, and what the cursor does from
    there on is not defined;
  \<^item> \<open>Reserved\<close>: the length is within the capacity and nothing but \<^verbatim>\<open>buffer_length_\<close>
    changes.

  \<open>reserve_state\<close> is the cursor's own state after the call, however it ended.
\<close>

datatype 'a reserve_result = Reserved 'a | Reallocated 'a | Length_error 'a

primrec reserve_state :: "'a reserve_result \<Rightarrow> 'a" where
  "reserve_state (Reserved c) = c"
| "reserve_state (Reallocated c) = c"
| "reserve_state (Length_error c) = c"

definition set_buffer_length ::
  "('c, 'src, 'p, 'ev) collaborators \<Rightarrow> nat \<Rightarrow> ('c, 'src, 'p, 'ev) yaml_cursor
    \<Rightarrow> ('c, 'src, 'p, 'ev) yaml_cursor reserve_result" where
  "set_buffer_length ops n c =
     (let c1 = c\<lparr>m_buffer_length := n\<rparr> in
      if buf_max_size ops < n then Length_error c1
      else if m_capacity c1 < n then Reallocated (c1\<lparr>m_capacity := n\<rparr>)
      else Reserved c1)"

definition cursor_done :: "('c, 'src, 'p, 'ev) collaborators \<Rightarrow> ('c, 'src, 'p, 'ev) yaml_cursor \<Rightarrow> bool" where
  "cursor_done ops c = p_done ops (m_parser c)"

definition current :: "('c, 'src, 'p, 'ev) yaml_cursor \<Rightarrow> 'ev" where
  "current c = m_cursor_visitor c"

definition eof :: "('c, 'src, 'p, 'ev) yaml_cursor \<Rightarrow> bool" where
  "eof c = m_eof c"

definition line :: "('c, 'src, 'p, 'ev) collaborators \<Rightarrow> ('c, 'src, 'p, 'ev) yaml_cursor \<Rightarrow> nat" where
  "line ops c = p_line ops (m_parser c)"

definition column :: "('c, 'src, 'p, 'ev) collaborators \<Rightarrow> ('c, 'src, 'p, 'ev) yaml_cursor \<Rightarrow> nat" where
  "column ops c = p_column ops (m_parser c)"

text \<open>
  \<^verbatim>\<open>read_buffer(ec)\<close>. The vector is cleared, resized to \<^verbatim>\<open>buffer_length_\<close>, filled by the
  source and cut to the count the source returned: it then holds what was read.
\<close>

definition read_buffer ::
  "('c, 'src, 'p, 'ev) collaborators \<Rightarrow> ('c, 'src, 'p, 'ev) yaml_cursor \<Rightarrow> error_code option
    \<Rightarrow> ('c, 'src, 'p, 'ev) yaml_cursor \<times> error_code option" where
  "read_buffer ops c ec =
     (case src_read ops (m_buffer_length c) (m_source c) of (chunk, src') \<Rightarrow>
        let c1 = c\<lparr>m_source := src', m_buffer := chunk\<rparr> in
        if length chunk = 0 then (c1\<lparr>m_eof := True\<rparr>, ec)
        else if m_begin c1 then
          (case skip_bom ops chunk of
             (offset, Some e) \<Rightarrow> (c1, Some e)
           | (offset, None) \<Rightarrow>
               (c1\<lparr>m_parser := p_update ops (drop offset chunk) (m_parser c1), m_begin := False\<rparr>, ec))
        else (c1\<lparr>m_parser := p_update ops chunk (m_parser c1)\<rparr>, ec))"

text \<open>
  The loop of \<^verbatim>\<open>read_next(ec)\<close>, with the event cache as the sink. The fuel bounds the
  number of times the loop condition is evaluated; \<open>None\<close> is a loop that has not ended
  within it.
\<close>

fun read_next_loop ::
  "('c, 'src, 'p, 'ev) collaborators \<Rightarrow> nat \<Rightarrow> ('c, 'src, 'p, 'ev) yaml_cursor \<Rightarrow> error_code option
    \<Rightarrow> (('c, 'src, 'p, 'ev) yaml_cursor \<times> error_code option) option" where
  "read_next_loop ops 0 c ec = None"
| "read_next_loop ops (Suc n) c ec =
     (if p_stopped ops (m_parser c) then Some (c, ec)
      else
        let refill = p_source_exhausted ops (m_parser c) \<and> \<not> src_eof ops (m_source c);
            (c1, ec1) = (if p_source_exhausted ops (m_parser c)
                         then (if \<not> src_eof ops (m_source c) then read_buffer ops c ec
                               else (c\<lparr>m_eof := True\<rparr>, ec))
                         else (c, ec))
        in if refill \<and> ec1 \<noteq> None then Some (c1, ec1)
           else
             (case deliver (p_parse_some ops (m_parser c1)) (staj_visit ops) (m_cursor_visitor c1) of
                (p', e, cv') \<Rightarrow>
                  let c2 = c1\<lparr>m_parser := p', m_cursor_visitor := cv'\<rparr>;
                      ec2 = set_ec e ec1
                  in if ec2 \<noteq> None then Some (c2, ec2) else read_next_loop ops n c2 ec2))"

definition read_next ::
  "('c, 'src, 'p, 'ev) collaborators \<Rightarrow> nat \<Rightarrow> ('c, 'src, 'p, 'ev) yaml_cursor \<Rightarrow> error_code option
    \<Rightarrow> (('c, 'src, 'p, 'ev) yaml_cursor \<times> error_code option) option" where
  "read_next ops n c ec = read_next_loop ops n (c\<lparr>m_parser := p_restart ops (m_parser c)\<rparr>) ec"

text \<open>The loop of \<^verbatim>\<open>read_next(visitor, ec)\<close>, with the caller's visitor as the sink.\<close>

fun read_next_visitor_loop ::
  "('c, 'src, 'p, 'ev) collaborators \<Rightarrow> nat \<Rightarrow> ('ev, 's) json_visitor
    \<Rightarrow> ('c, 'src, 'p, 'ev) yaml_cursor \<Rightarrow> error_code option \<Rightarrow> 's
    \<Rightarrow> (('c, 'src, 'p, 'ev) yaml_cursor \<times> error_code option \<times> 's) option" where
  "read_next_visitor_loop ops 0 v c ec s = None"
| "read_next_visitor_loop ops (Suc n) v c ec s =
     (if p_stopped ops (m_parser c) then Some (c, ec, s)
      else
        let refill = p_source_exhausted ops (m_parser c) \<and> \<not> src_eof ops (m_source c);
            (c1, ec1) = (if p_source_exhausted ops (m_parser c)
                         then (if \<not> src_eof ops (m_source c) then read_buffer ops c ec
                               else (c\<lparr>m_eof := True\<rparr>, ec))
                         else (c, ec))
        in if refill \<and> ec1 \<noteq> None then Some (c1, ec1, s)
           else
             (case deliver (p_parse_some ops (m_parser c1)) v s of
                (p', e, s') \<Rightarrow>
                  let c2 = c1\<lparr>m_parser := p'\<rparr>;
                      ec2 = set_ec e ec1
                  in if ec2 \<noteq> None then Some (c2, ec2, s')
                     else read_next_visitor_loop ops n v c2 ec2 s'))"

definition read_next_visitor ::
  "('c, 'src, 'p, 'ev) collaborators \<Rightarrow> nat \<Rightarrow> ('ev, 's) json_visitor
    \<Rightarrow> ('c, 'src, 'p, 'ev) yaml_cursor \<Rightarrow> error_code option \<Rightarrow> 's
    \<Rightarrow> (('c, 'src, 'p, 'ev) yaml_cursor \<times> error_code option \<times> 's) option" where
  "read_next_visitor ops n v c ec s =
     read_next_visitor_loop ops n v (c\<lparr>m_parser := p_restart ops (m_parser c)\<rparr>) ec s"

text \<open>\<^verbatim>\<open>next(ec)\<close> and \<^verbatim>\<open>read_to(visitor, ec)\<close>, the forms that set an error code.\<close>

definition next_ec ::
  "('c, 'src, 'p, 'ev) collaborators \<Rightarrow> nat \<Rightarrow> ('c, 'src, 'p, 'ev) yaml_cursor \<Rightarrow> error_code option
    \<Rightarrow> (('c, 'src, 'p, 'ev) yaml_cursor \<times> error_code option) option" where
  "next_ec ops n c ec = read_next ops n c ec"

definition read_to_ec ::
  "('c, 'src, 'p, 'ev) collaborators \<Rightarrow> nat \<Rightarrow> ('ev, 's) json_visitor
    \<Rightarrow> ('c, 'src, 'p, 'ev) yaml_cursor \<Rightarrow> error_code option \<Rightarrow> 's
    \<Rightarrow> (('c, 'src, 'p, 'ev) yaml_cursor \<times> error_code option \<times> 's) option" where
  "read_to_ec ops n v c ec s =
     (case staj_to_saj_event (m_cursor_visitor c) v s of
        (continue, s1) \<Rightarrow> if continue then read_next_visitor ops n v c ec s1 else Some (c, ec, s1))"

text \<open>
  \<^verbatim>\<open>check_done(ec)\<close>: the loop of its \<^verbatim>\<open>else\<close> branch, then the function.
\<close>

fun check_done_loop ::
  "('c, 'src, 'p, 'ev) collaborators \<Rightarrow> nat \<Rightarrow> ('c, 'src, 'p, 'ev) yaml_cursor \<Rightarrow> error_code option
    \<Rightarrow> (('c, 'src, 'p, 'ev) yaml_cursor \<times> error_code option) option" where
  "check_done_loop ops 0 c ec = None"
| "check_done_loop ops (Suc n) c ec =
     (if m_eof c then Some (c, ec)
      else
        let refill = p_source_exhausted ops (m_parser c) \<and> \<not> src_eof ops (m_source c);
            (c1, ec1) = (if p_source_exhausted ops (m_parser c)
                         then (if \<not> src_eof ops (m_source c) then read_buffer ops c ec
                               else (c\<lparr>m_eof := True\<rparr>, ec))
                         else (c, ec))
        in if refill \<and> ec1 \<noteq> None then Some (c1, ec1)
           else if \<not> m_eof c1 then
             (case p_check_done ops (m_parser c1) of
                (p', e) \<Rightarrow>
                  let c2 = c1\<lparr>m_parser := p'\<rparr>;
                      ec2 = set_ec e ec1
                  in if ec2 \<noteq> None then Some (c2, ec2) else check_done_loop ops n c2 ec2)
           else check_done_loop ops n c1 ec1)"

definition check_done_ec ::
  "('c, 'src, 'p, 'ev) collaborators \<Rightarrow> nat \<Rightarrow> ('c, 'src, 'p, 'ev) yaml_cursor \<Rightarrow> error_code option
    \<Rightarrow> (('c, 'src, 'p, 'ev) yaml_cursor \<times> error_code option) option" where
  "check_done_ec ops n c ec =
     (if src_is_error ops (m_source c) then Some (c, Some source_error)
      else if m_eof c then
        (case p_check_done ops (m_parser c) of
           (p', e) \<Rightarrow> Some (c\<lparr>m_parser := p'\<rparr>, set_ec e ec))
      else check_done_loop ops n c ec)"

text \<open>
  The throwing forms \<^verbatim>\<open>next()\<close>, \<^verbatim>\<open>read_to(visitor)\<close> and \<^verbatim>\<open>check_done()\<close>: a fresh
  \<^verbatim>\<open>std::error_code\<close>, the call, and \<^verbatim>\<open>JSONCONS_THROW(ser_error(ec, line, column))\<close>.
\<close>

definition next_throwing ::
  "('c, 'src, 'p, 'ev) collaborators \<Rightarrow> nat \<Rightarrow> ('c, 'src, 'p, 'ev) yaml_cursor
    \<Rightarrow> ('c, 'src, 'p, 'ev) yaml_cursor outcome option" where
  "next_throwing ops n c =
     (case next_ec ops n c None of
        None \<Rightarrow> None
      | Some (c', ec) \<Rightarrow>
          (case ec of
             Some e \<Rightarrow> Some (Thrown (ser_error e (p_line ops (m_parser c')) (p_column ops (m_parser c'))) c')
           | None \<Rightarrow> Some (Returned c')))"

definition read_to_throwing ::
  "('c, 'src, 'p, 'ev) collaborators \<Rightarrow> nat \<Rightarrow> ('ev, 's) json_visitor
    \<Rightarrow> ('c, 'src, 'p, 'ev) yaml_cursor \<Rightarrow> 's
    \<Rightarrow> (('c, 'src, 'p, 'ev) yaml_cursor \<times> 's) outcome option" where
  "read_to_throwing ops n v c s =
     (case read_to_ec ops n v c None s of
        None \<Rightarrow> None
      | Some (c', ec, s') \<Rightarrow>
          (case ec of
             Some e \<Rightarrow> Some (Thrown (ser_error e (p_line ops (m_parser c')) (p_column ops (m_parser c'))) (c', s'))
           | None \<Rightarrow> Some (Returned (c', s'))))"

definition check_done_throwing ::
  "('c, 'src, 'p, 'ev) collaborators \<Rightarrow> nat \<Rightarrow> ('c, 'src, 'p, 'ev) yaml_cursor
    \<Rightarrow> ('c, 'src, 'p, 'ev) yaml_cursor outcome option" where
  "check_done_throwing ops n c =
     (case check_done_ec ops n c None of
        None \<Rightarrow> None
      | Some (c', ec) \<Rightarrow>
          (case ec of
             Some e \<Rightarrow> Some (Thrown (ser_error e (p_line ops (m_parser c')) (p_column ops (m_parser c'))) c')
           | None \<Rightarrow> Some (Returned c')))"

text \<open>
  The constructors. The member initialisers give the state before the body runs (for a
  stream, with the \<^verbatim>\<open>buffer_.reserve(buffer_length_)\<close> that opens the body done); the body
  primes the first event with \<^verbatim>\<open>next\<close> unless the parser is already done.
  \<open>stream_init\<close> is the initial state of the constructors taking a stream (the source is
  not convertible to a string view), \<open>slice_init\<close> that of the constructors taking a
  string-like value, which leave \<^verbatim>\<open>source_\<close> default-constructed.
\<close>

definition stream_init :: "('c, 'src, 'p, 'ev) collaborators \<Rightarrow> 'src \<Rightarrow> ('c, 'src, 'p, 'ev) yaml_cursor" where
  "stream_init ops src =
     \<lparr>m_source = src, m_parser = p_new ops, m_cursor_visitor = staj_new ops, m_buffer = [],
      m_buffer_length = default_max_buffer_length, m_eof = False, m_begin = True,
      m_capacity = default_max_buffer_length\<rparr>"

definition slice_init :: "('c, 'src, 'p, 'ev) collaborators \<Rightarrow> ('c, 'src, 'p, 'ev) yaml_cursor" where
  "slice_init ops =
     \<lparr>m_source = src_default ops, m_parser = p_new ops, m_cursor_visitor = staj_new ops, m_buffer = [],
      m_buffer_length = 0, m_eof = False, m_begin = False, m_capacity = 0\<rparr>"

definition yaml_cursor_stream ::
  "('c, 'src, 'p, 'ev) collaborators \<Rightarrow> nat \<Rightarrow> 'src \<Rightarrow> ('c, 'src, 'p, 'ev) yaml_cursor outcome option" where
  "yaml_cursor_stream ops n src =
     (let c = stream_init ops src in
      if \<not> cursor_done ops c then next_throwing ops n c else Some (Returned c))"

definition yaml_cursor_stream_ec ::
  "('c, 'src, 'p, 'ev) collaborators \<Rightarrow> nat \<Rightarrow> 'src \<Rightarrow> error_code option
    \<Rightarrow> (('c, 'src, 'p, 'ev) yaml_cursor \<times> error_code option) option" where
  "yaml_cursor_stream_ec ops n src ec =
     (let c = stream_init ops src in
      if \<not> cursor_done ops c then next_ec ops n c ec else Some (c, ec))"

definition yaml_cursor_slice ::
  "('c, 'src, 'p, 'ev) collaborators \<Rightarrow> nat \<Rightarrow> 'c list \<Rightarrow> ('c, 'src, 'p, 'ev) yaml_cursor outcome option" where
  "yaml_cursor_slice ops n sv =
     (let c = slice_init ops in
      case skip_bom ops sv of
        (offset, Some e) \<Rightarrow>
          Some (Thrown (ser_error e (p_line ops (m_parser c)) (p_column ops (m_parser c))) c)
      | (offset, None) \<Rightarrow>
          let c1 = c\<lparr>m_parser := p_update ops (drop offset sv) (m_parser c)\<rparr> in
          if \<not> cursor_done ops c1 then next_throwing ops n c1 else Some (Returned c1))"

definition yaml_cursor_slice_ec ::
  "('c, 'src, 'p, 'ev) collaborators \<Rightarrow> nat \<Rightarrow> 'c list \<Rightarrow> error_code option
    \<Rightarrow> (('c, 'src, 'p, 'ev) yaml_cursor \<times> error_code option) option" where
  "yaml_cursor_slice_ec ops n sv ec =
     (let c = slice_init ops in
      case skip_bom ops sv of
        (offset, Some e) \<Rightarrow> Some (c, Some e)
      | (offset, None) \<Rightarrow>
          let c1 = c\<lparr>m_parser := p_update ops (drop offset sv) (m_parser c)\<rparr> in
          if \<not> cursor_done ops c1 then next_ec ops n c1 ec else Some (c1, ec))"

subsection \<open>Consumers\<close>

text \<open>
  Pull-mode consumption as the specification describes it: while the cursor is not done,
  read \<^verbatim>\<open>current()\<close> and call \<^verbatim>\<open>next(ec)\<close>. The result is the list of events read, the
  final cursor and the error code that ended the loop, if any.
\<close>

fun pull_events ::
  "('c, 'src, 'p, 'ev) collaborators \<Rightarrow> nat \<Rightarrow> ('c, 'src, 'p, 'ev) yaml_cursor
    \<Rightarrow> ('ev list \<times> ('c, 'src, 'p, 'ev) yaml_cursor \<times> error_code option) option" where
  "pull_events ops 0 c = None"
| "pull_events ops (Suc n) c =
     (if cursor_done ops c then Some ([], c, None)
      else
        (case next_ec ops (Suc n) c None of
           None \<Rightarrow> None
         | Some (c', Some e) \<Rightarrow> Some ([current c], c', Some e)
         | Some (c', None) \<Rightarrow>
             (case pull_events ops n c' of
                None \<Rightarrow> None
              | Some (evs, r) \<Rightarrow> Some (current c # evs, r))))"

text \<open>A visitor that records every event it is given and never asks the parser to stop.\<close>

definition recorder :: "('ev, 'ev list) json_visitor" where
  "recorder ev log = (True, log @ [ev])"

text \<open>
  What a consumer gets from an input: it constructs the cursor (from a stream, or from a
  slice) with the constructor that sets an error code and, unless that reports an error,
  pulls the events as above. The result is the list of events read and the error code that
  ended the reading, if any.
\<close>

definition stream_events ::
  "('c, 'src, 'p, 'ev) collaborators \<Rightarrow> nat \<Rightarrow> 'src \<Rightarrow> ('ev list \<times> error_code option) option" where
  "stream_events ops n src =
     (case yaml_cursor_stream_ec ops n src None of
        None \<Rightarrow> None
      | Some (c, Some e) \<Rightarrow> Some ([], Some e)
      | Some (c, None) \<Rightarrow>
          (case pull_events ops n c of
             None \<Rightarrow> None
           | Some (evs, c', ec) \<Rightarrow> Some (evs, ec)))"

definition slice_events ::
  "('c, 'src, 'p, 'ev) collaborators \<Rightarrow> nat \<Rightarrow> 'c list \<Rightarrow> ('ev list \<times> error_code option) option" where
  "slice_events ops n sv =
     (case yaml_cursor_slice_ec ops n sv None of
        None \<Rightarrow> None
      | Some (c, Some e) \<Rightarrow> Some ([], Some e)
      | Some (c, None) \<Rightarrow>
          (case pull_events ops n c of
             None \<Rightarrow> None
           | Some (evs, c', ec) \<Rightarrow> Some (evs, ec)))"

subsection \<open>An example instance of the collaborators\<close>

text \<open>
  Modelled from the spec: the incremental-stream variant of the Source Adapter (section
  4.1; \<^verbatim>\<open>stream_source\<close> is not among the sources), over a finite input. A read returns up
  to the requested number of units and consumes them; the end-of-file flag is raised by a
  read that comes back short, and once it is raised reads return nothing.
\<close>

type_synonym 'c list_source = "'c list \<times> bool"

definition list_read :: "nat \<Rightarrow> 'c list_source \<Rightarrow> 'c list \<times> 'c list_source" where
  "list_read n src =
     (case src of (xs, at_eof) \<Rightarrow>
        if at_eof then ([], src) else (take n xs, (drop n xs, length xs < n)))"

text \<open>
  A byte-order-mark scan: the UTF-8 mark \<open>EF BB BF\<close> is valid and skipped, a UTF-16 mark
  (\<open>FF FE\<close> or \<open>FE FF\<close>) is reported as an encoding error, anything else is no mark.
\<close>

definition bom_scan :: "nat list \<Rightarrow> nat \<times> error_code option" where
  "bom_scan xs =
     (if take 3 xs = [239, 187, 191] then (3, None)
      else if take 2 xs = [255, 254] \<or> take 2 xs = [254, 255] then (2, Some (encoding_error 1))
      else (0, None))"

text \<open>
  A tokenizer for a bracket language: \<open>91\<close> (\<open>[\<close>) opens an array, \<open>93\<close> (\<open>]\<close>) closes
  one, \<open>32\<close> is white space, every other unit is a scalar. A document is one value. The
  tokenizer stops when its visitor says so, and becomes done on the first call after the
  value is complete.
\<close>

datatype toy_event = NullEvent | BeginArray | EndArray | Scalar nat

datatype toy_state = Start | Inside nat | Accept | Done

record toy_parser =
  rest :: "nat list"
  running :: bool
  state :: toy_state

fun toy_step :: "toy_state \<Rightarrow> nat \<Rightarrow> (toy_event \<times> toy_state) option" where
  "toy_step Start x =
     (if x = 91 then Some (BeginArray, Inside 0) else if x = 93 then None else Some (Scalar x, Accept))"
| "toy_step (Inside d) x =
     (if x = 91 then Some (BeginArray, Inside (Suc d))
      else if x = 93 then Some (EndArray, (case d of 0 \<Rightarrow> Accept | Suc d' \<Rightarrow> Inside d'))
      else Some (Scalar x, Inside d))"
| "toy_step Accept x = None"
| "toy_step Done x = None"

primrec toy_scan :: "nat list \<Rightarrow> toy_state \<Rightarrow> (toy_parser, toy_event) parse_run" where
  "toy_scan [] st = Ret \<lparr>rest = [], running = True, state = st\<rparr> None"
| "toy_scan (x # xs) st =
     (if st = Accept \<or> st = Done then Ret \<lparr>rest = x # xs, running = False, state = Done\<rparr> None
      else if x = 32 then toy_scan xs st
      else
        (case toy_step st x of
           None \<Rightarrow> Ret \<lparr>rest = x # xs, running = False, state = st\<rparr> (Some (parse_error 1))
         | Some (ev, st') \<Rightarrow>
             Emit ev (\<lambda>continue.
               if continue then toy_scan xs st'
               else Ret \<lparr>rest = xs, running = False, state = st'\<rparr> None)))"

definition toy_parse_some :: "toy_parser \<Rightarrow> (toy_parser, toy_event) parse_run" where
  "toy_parse_some p =
     (if state p = Accept then Ret (p\<lparr>running := False, state := Done\<rparr>) None
      else if \<not> running p then Ret p None
      else if rest p = [] then
        (if state p = Done then Ret (p\<lparr>running := False\<rparr>) None
         else Ret (p\<lparr>running := False\<rparr>) (Some (parse_error 2)))
      else toy_scan (rest p) (state p))"

fun toy_check_done :: "toy_parser \<Rightarrow> toy_parser \<times> error_code option" where
  "toy_check_done p =
     (if state p \<noteq> Accept \<and> state p \<noteq> Done then (p, Some (parse_error 2))
      else
        (case dropWhile (\<lambda>x. x = 32) (rest p) of
           [] \<Rightarrow> (p\<lparr>rest := []\<rparr>, None)
         | x # xs \<Rightarrow> (p\<lparr>rest := x # xs\<rparr>, Some (parse_error 3))))"

definition toy_ops :: "(nat, nat list_source, toy_parser, toy_event) collaborators" where
  "toy_ops =
     \<lparr>src_default = ([], False),
      src_read = list_read,
      src_eof = snd,
      src_is_error = (\<lambda>src. False),
      skip_bom = bom_scan,
      p_new = \<lparr>rest = [], running = True, state = Start\<rparr>,
      p_update = (\<lambda>chunk p. p\<lparr>rest := chunk\<rparr>),
      p_restart = (\<lambda>p. p\<lparr>running := True\<rparr>),
      p_stopped = (\<lambda>p. \<not> running p),
      p_done = (\<lambda>p. state p = Done),
      p_source_exhausted = (\<lambda>p. rest p = []),
      p_parse_some = toy_parse_some,
      p_check_done = toy_check_done,
      p_line = (\<lambda>p. 1),
      p_column = (\<lambda>p. 1),
      staj_new = NullEvent,
      staj_visit = (\<lambda>ev cache. (False, ev)),
      buf_max_size = 9223372036854775807\<rparr>"

subsection \<open>Auxiliary notions\<close>

text \<open>
  The contract of the source's \<^verbatim>\<open>read\<close>: it returns at most as many units as it was
  asked for.
\<close>

definition src_read_bounded :: "('c, 'src, 'p, 'ev) collaborators \<Rightarrow> bool" where
  "src_read_bounded ops = (\<forall>n s. length (fst (src_read ops n s)) \<le> n)"

text \<open>
  What the comparison of pull and push mode needs from the tokenizer and the event cache,
  neither of which is part of the cursor's file:
  \<^item> the event cache stores the event it is given and asks the tokenizer to stop;
  \<^item> \<^verbatim>\<open>restart\<close> clears the stop condition and \<^verbatim>\<open>update\<close> leaves it alone, and \<^verbatim>\<open>restart\<close>
    does not change whether the buffered input is exhausted;
  \<^item> when a running tokenizer emits an event and is told to stop, it returns stopped, not
    done and without an error; told to continue, it goes on exactly as a fresh
    \<^verbatim>\<open>parse_some\<close> call on the restarted tokenizer would, or returns if its input is
    exhausted (stopping at an event and resuming loses nothing);
  \<^item> a running tokenizer that stops by itself without an error is done.
\<close>

definition tokenizer_resumable :: "('c, 'src, 'p, 'ev) collaborators \<Rightarrow> bool" where
  "tokenizer_resumable ops \<longleftrightarrow>
     (\<forall>ev cache. staj_visit ops ev cache = (False, ev))
     \<and> (\<forall>p. \<not> p_stopped ops (p_restart ops p)
            \<and> (p_source_exhausted ops (p_restart ops p) \<longleftrightarrow> p_source_exhausted ops p))
     \<and> (\<forall>chunk p. p_stopped ops (p_update ops chunk p) \<longleftrightarrow> p_stopped ops p)
     \<and> (\<forall>p ev k. \<not> p_stopped ops p \<and> p_parse_some ops p = Emit ev k \<longrightarrow>
            (\<exists>p1. k False = Ret p1 None \<and> p_stopped ops p1 \<and> \<not> p_done ops p1
                  \<and> k True = (if p_source_exhausted ops p1 then Ret (p_restart ops p1) None
                              else p_parse_some ops (p_restart ops p1))))
     \<and> (\<forall>p p'. \<not> p_stopped ops p \<and> p_parse_some ops p = Ret p' None \<and> p_stopped ops p'
            \<longrightarrow> p_done ops p')"

text \<open>
  Notions for the proofs about pull and push mode. \<open>pull_from_head\<close> is pull-mode
  consumption that starts inside \<^verbatim>\<open>read_next\<close>, at the head of its loop; \<open>pull_rest\<close> and
  \<open>push_rest\<close> are what remains of a pull-mode and of a push-mode run once the cursor is
  about to run the \<^verbatim>\<open>parse_some\<close> call \<open>t\<close>. \<open>head_ok\<close> holds of the cursors met at the
  head of the loop: a stopped tokenizer there is done.
\<close>

definition pull_from_head ::
  "('c, 'src, 'p, 'ev) collaborators \<Rightarrow> nat \<Rightarrow> nat \<Rightarrow> ('c, 'src, 'p, 'ev) yaml_cursor
    \<Rightarrow> ('ev list \<times> ('c, 'src, 'p, 'ev) yaml_cursor \<times> error_code option) option" where
  "pull_from_head ops k n c =
     (case read_next_loop ops k c None of
        None \<Rightarrow> None
      | Some (c1, Some e) \<Rightarrow> Some ([], c1, Some e)
      | Some (c1, None) \<Rightarrow> pull_events ops n c1)"

definition pull_rest ::
  "('c, 'src, 'p, 'ev) collaborators \<Rightarrow> nat \<Rightarrow> nat \<Rightarrow> ('c, 'src, 'p, 'ev) yaml_cursor \<Rightarrow> 'ev
    \<Rightarrow> ('p, 'ev) parse_run
    \<Rightarrow> ('ev list \<times> ('c, 'src, 'p, 'ev) yaml_cursor \<times> error_code option) option" where
  "pull_rest ops k n c1 x t =
     (case deliver t (staj_visit ops) x of
        (p', e, cv') \<Rightarrow>
          if e \<noteq> None then Some ([], c1\<lparr>m_parser := p', m_cursor_visitor := cv'\<rparr>, e)
          else pull_from_head ops k n (c1\<lparr>m_parser := p', m_cursor_visitor := cv'\<rparr>))"

definition push_rest ::
  "('c, 'src, 'p, 'ev) collaborators \<Rightarrow> nat \<Rightarrow> ('c, 'src, 'p, 'ev) yaml_cursor \<Rightarrow> 'ev list
    \<Rightarrow> ('p, 'ev) parse_run
    \<Rightarrow> (('c, 'src, 'p, 'ev) yaml_cursor \<times> error_code option \<times> 'ev list) option" where
  "push_rest ops m c1 log t =
     (case deliver t recorder log of
        (p', e, l1) \<Rightarrow>
          if e \<noteq> None then Some (c1\<lparr>m_parser := p'\<rparr>, e, l1)
          else read_next_visitor_loop ops m recorder (c1\<lparr>m_parser := p'\<rparr>) None l1)"

definition head_ok :: "('c, 'src, 'p, 'ev) collaborators \<Rightarrow> ('c, 'src, 'p, 'ev) yaml_cursor \<Rightarrow> bool" where
  "head_ok ops c = (p_stopped ops (m_parser c) \<longrightarrow> p_done ops (m_parser c))"

text \<open>
  What the fixed-slice constructors establish and every later operation keeps: a chunk
  length of zero, an empty buffer and a cleared encoding-detection flag.
\<close>

definition slice_shape :: "('c, 'src, 'p, 'ev) yaml_cursor \<Rightarrow> bool" where
  "slice_shape c = (m_buffer_length c = 0 \<and> m_buffer c = [] \<and> \<not> m_begin c)"

text \<open>
  The three loops of the cursor share their first statement: when the parser has used up
  its input, refill from the source unless the source is at end of file, in which case
  set \<^verbatim>\<open>eof_\<close>. \<open>refill_block\<close> is the state after that statement and \<open>refill_failed\<close>
  says that it ran \<^verbatim>\<open>read_buffer\<close> and left an error code, so that the loop returns.
\<close>

definition refill_block ::
  "('c, 'src, 'p, 'ev) collaborators \<Rightarrow> ('c, 'src, 'p, 'ev) yaml_cursor \<Rightarrow> error_code option
    \<Rightarrow> ('c, 'src, 'p, 'ev) yaml_cursor \<times> error_code option" where
  "refill_block ops c ec =
     (if p_source_exhausted ops (m_parser c)
      then (if \<not> src_eof ops (m_source c) then read_buffer ops c ec else (c\<lparr>m_eof := True\<rparr>, ec))
      else (c, ec))"

definition refill_failed ::
  "('c, 'src, 'p, 'ev) collaborators \<Rightarrow> ('c, 'src, 'p, 'ev) yaml_cursor \<Rightarrow> error_code option \<Rightarrow> bool" where
  "refill_failed ops c ec =
     (p_source_exhausted ops (m_parser c) \<and> \<not> src_eof ops (m_source c)
      \<and> snd (read_buffer ops c ec) \<noteq> None)"

text \<open>
  The source of a cursor is the list source: \<^verbatim>\<open>read\<close> takes the requested number of units
  off the front of the remaining input and \<^verbatim>\<open>eof\<close> is the flag that a short read raises.
\<close>

definition reads_from_list :: "('c, 'c list_source, 'p, 'ev) collaborators \<Rightarrow> bool" where
  "reads_from_list ops \<longleftrightarrow> src_read ops = list_read \<and> src_eof ops = snd"

text \<open>
  The contract of the tokenizer's \<^verbatim>\<open>check_done\<close> with respect to its pending input
  \<open>pending\<close>, the white space \<open>blank\<close>, the states \<open>terminal\<close> in which a value is complete and
  the error code \<open>extra\<close> for content after the value: \<^verbatim>\<open>update\<close> replaces the pending input
  and keeps the state, \<^verbatim>\<open>source_exhausted\<close> says that no input is pending, and the check of a
  tokenizer in a terminal state succeeds and uses up the pending input when that is all
  white space, and fails with \<open>extra\<close> when it is not.
\<close>

definition tokenizer_checks ::
  "('c, 'src, 'p, 'ev) collaborators \<Rightarrow> ('p \<Rightarrow> 'c list) \<Rightarrow> ('c \<Rightarrow> bool) \<Rightarrow> ('p \<Rightarrow> bool)
    \<Rightarrow> error_code \<Rightarrow> bool" where
  "tokenizer_checks ops pending blank terminal extra \<longleftrightarrow>
     (\<forall>xs p. pending (p_update ops xs p) = xs)
     \<and> (\<forall>p. p_source_exhausted ops p \<longleftrightarrow> pending p = [])
     \<and> (\<forall>xs p. terminal (p_update ops xs p) \<longleftrightarrow> terminal p)
     \<and> (\<forall>p. terminal p \<and> list_all blank (pending p) \<longrightarrow>
            snd (p_check_done ops p) = None \<and> pending (fst (p_check_done ops p)) = []
            \<and> terminal (fst (p_check_done ops p)))
     \<and> (\<forall>p. terminal p \<and> \<not> list_all blank (pending p) \<longrightarrow> snd (p_check_done ops p) = Some extra)"

text \<open>
  What a run of \<^verbatim>\<open>parse_some\<close> over the input \<open>xs\<close> becomes when the input is \<open>xs @ ys\<close>: the
  same events, and at its end, if the tokenizer has used up \<open>xs\<close> without error and without
  stopping, the run over \<open>ys\<close>; otherwise \<open>ys\<close> is left pending behind what the run left.
\<close>

primrec extend_run ::
  "('c, 'src, 'p, 'ev) collaborators \<Rightarrow> ('p \<Rightarrow> 'c list) \<Rightarrow> 'c list \<Rightarrow> ('p, 'ev) parse_run
    \<Rightarrow> ('p, 'ev) parse_run" where
  "extend_run ops pending ys (Ret p e) =
     (if e = None \<and> \<not> p_stopped ops p \<and> pending p = []
      then p_parse_some ops (p_update ops ys p)
      else Ret (p_update ops (pending p @ ys) p) e)"
| "extend_run ops pending ys (Emit ev k) = Emit ev (\<lambda>continue. extend_run ops pending ys (k continue))"

text \<open>
  The contract of an incremental tokenizer with respect to its pending input \<open>pending\<close>:
  \<^verbatim>\<open>update\<close> replaces the pending input and nothing else that the cursor observes,
  \<^verbatim>\<open>source_exhausted\<close> says that no input is pending, and giving the tokenizer its input in
  one piece or in two makes no difference to what \<^verbatim>\<open>parse_some\<close> does with it.
\<close>

definition tokenizer_incremental ::
  "('c, 'src, 'p, 'ev) collaborators \<Rightarrow> ('p \<Rightarrow> 'c list) \<Rightarrow> bool" where
  "tokenizer_incremental ops pending \<longleftrightarrow>
     (\<forall>xs p. pending (p_update ops xs p) = xs)
     \<and> (\<forall>p. p_source_exhausted ops p \<longleftrightarrow> pending p = [])
     \<and> (\<forall>xs p. p_stopped ops (p_update ops xs p) \<longleftrightarrow> p_stopped ops p)
     \<and> (\<forall>xs ys p. p_update ops xs (p_update ops ys p) = p_update ops xs p)
     \<and> (\<forall>p. p_update ops (pending p) p = p)
     \<and> (\<forall>xs ys p. \<not> p_stopped ops p \<and> xs \<noteq> [] \<and> ys \<noteq> [] \<longrightarrow>
            p_parse_some ops (p_update ops (xs @ ys) p) =
              extend_run ops pending ys (p_parse_some ops (p_update ops xs p)))"

text \<open>
  A cursor of the stream variant whose first chunk has been scanned for an encoding marker,
  over a list source whose flag is only raised when the input is used up; and the same cursor
  with all the input that is left handed to the tokenizer at once.
\<close>

definition chunk_ready :: "('c, 'c list_source, 'p, 'ev) yaml_cursor \<Rightarrow> bool" where
  "chunk_ready c \<longleftrightarrow>
     0 < m_buffer_length c \<and> \<not> m_begin c \<and> (snd (m_source c) \<longrightarrow> fst (m_source c) = [])"

definition flatten ::
  "('c, 'c list_source, 'p, 'ev) collaborators \<Rightarrow> ('p \<Rightarrow> 'c list)
    \<Rightarrow> ('c, 'c list_source, 'p, 'ev) yaml_cursor \<Rightarrow> ('c, 'c list_source, 'p, 'ev) yaml_cursor" where
  "flatten ops pending c =
     c\<lparr>m_parser := p_update ops (pending (m_parser c) @ fst (m_source c)) (m_parser c),
       m_source := ([], True), m_buffer := [], m_buffer_length := 0, m_eof := True\<rparr>"

text \<open>
  The first refill of a stream cursor over the list source. \<open>first_chunk_ok\<close>: the scan of
  the first chunk of the input reports no error and an offset \<open>k\<close>, and the chunk holds
  input beyond the offset. \<open>stream_head\<close> is the cursor at the head of the loop of the
  constructor's \<^verbatim>\<open>next\<close>, \<open>after_first_refill\<close> the cursor once that loop has refilled.
\<close>

definition first_chunk_ok ::
  "('c, 'c list_source, 'p, 'ev) collaborators \<Rightarrow> 'c list \<Rightarrow> nat \<Rightarrow> bool" where
  "first_chunk_ok ops input k \<longleftrightarrow>
     skip_bom ops (take default_max_buffer_length input) = (k, None)
     \<and> drop k (take default_max_buffer_length input) \<noteq> []"

definition stream_head ::
  "('c, 'src, 'p, 'ev) collaborators \<Rightarrow> 'src \<Rightarrow> ('c, 'src, 'p, 'ev) yaml_cursor" where
  "stream_head ops src = (stream_init ops src)\<lparr>m_parser := p_restart ops (p_new ops)\<rparr>"

definition after_first_refill ::
  "('c, 'c list_source, 'p, 'ev) collaborators \<Rightarrow> 'c list \<Rightarrow> nat \<Rightarrow> ('c, 'c list_source, 'p, 'ev) yaml_cursor" where
  "after_first_refill ops input k =
     (stream_init ops (drop default_max_buffer_length input, length input < default_max_buffer_length))
       \<lparr>m_parser := p_update ops (drop k (take default_max_buffer_length input)) (p_restart ops (p_new ops)),
        m_buffer := take default_max_buffer_length input, m_begin := False\<rparr>"

subsection \<open>The specification's wording of two operations\<close>

text \<open>
  The stepping loop as section 4.3 of the specification words it: repeat while the
  tokenizer is neither stopped nor done. Everything else is as in \<open>read_next_loop\<close>.
\<close>

fun advance_spec_loop ::
  "('c, 'src, 'p, 'ev) collaborators \<Rightarrow> nat \<Rightarrow> ('c, 'src, 'p, 'ev) yaml_cursor \<Rightarrow> error_code option
    \<Rightarrow> (('c, 'src, 'p, 'ev) yaml_cursor \<times> error_code option) option" where
  "advance_spec_loop ops 0 c ec = None"
| "advance_spec_loop ops (Suc n) c ec =
     (if p_stopped ops (m_parser c) \<or> p_done ops (m_parser c) then Some (c, ec)
      else
        let refill = p_source_exhausted ops (m_parser c) \<and> \<not> src_eof ops (m_source c);
            (c1, ec1) = (if p_source_exhausted ops (m_parser c)
                         then (if \<not> src_eof ops (m_source c) then read_buffer ops c ec
                               else (c\<lparr>m_eof := True\<rparr>, ec))
                         else (c, ec))
        in if refill \<and> ec1 \<noteq> None then Some (c1, ec1)
           else
             (case deliver (p_parse_some ops (m_parser c1)) (staj_visit ops) (m_cursor_visitor c1) of
                (p', e, cv') \<Rightarrow>
                  let c2 = c1\<lparr>m_parser := p', m_cursor_visitor := cv'\<rparr>;
                      ec2 = set_ec e ec1
                  in if ec2 \<noteq> None then Some (c2, ec2) else advance_spec_loop ops n c2 ec2))"

definition advance_spec ::
  "('c, 'src, 'p, 'ev) collaborators \<Rightarrow> nat \<Rightarrow> ('c, 'src, 'p, 'ev) yaml_cursor \<Rightarrow> error_code option
    \<Rightarrow> (('c, 'src, 'p, 'ev) yaml_cursor \<times> error_code option) option" where
  "advance_spec ops n c ec = advance_spec_loop ops n (c\<lparr>m_parser := p_restart ops (m_parser c)\<rparr>) ec"

text \<open>
  Push mode as the specification words it: replay the cached event into the visitor, then
  run the stepping loop with the visitor as the sink.
\<close>

definition drain_to_spec ::
  "('c, 'src, 'p, 'ev) collaborators \<Rightarrow> nat \<Rightarrow> ('ev, 's) json_visitor
    \<Rightarrow> ('c, 'src, 'p, 'ev) yaml_cursor \<Rightarrow> error_code option \<Rightarrow> 's
    \<Rightarrow> (('c, 'src, 'p, 'ev) yaml_cursor \<times> error_code option \<times> 's) option" where
  "drain_to_spec ops n v c ec s =
     (case staj_to_saj_event (m_cursor_visitor c) v s of
        (continue, s1) \<Rightarrow> read_next_visitor ops n v c ec s1)"

text \<open>A visitor that records the event it is given and asks the parser to stop.\<close>

definition stopper :: "('ev, 'ev list) json_visitor" where
  "stopper ev log = (False, log @ [ev])"

subsection \<open>Example cursors\<close>

definition example_stream :: "(nat, nat list_source, toy_parser, toy_event) yaml_cursor" where
  "example_stream = stream_init toy_ops ([91, 55, 32, 56, 93], False)"

definition example_empty_stream :: "(nat, nat list_source, toy_parser, toy_event) yaml_cursor" where
  "example_empty_stream = stream_init toy_ops ([], False)"

definition example_utf16_stream :: "(nat, nat list_source, toy_parser, toy_event) yaml_cursor" where
  "example_utf16_stream = stream_init toy_ops ([255, 254, 55], False)"

definition example_rescan :: "(nat, nat list_source, toy_parser, toy_event) yaml_cursor" where
  "example_rescan = (stream_init toy_ops ([255, 254, 0, 239, 187, 191, 55], False))\<lparr>m_buffer_length := 3\<rparr>"

definition example_primed :: "(nat, nat list_source, toy_parser, toy_event) yaml_cursor" where
  "example_primed =
     \<lparr>m_source = ([], True),
      m_parser = \<lparr>rest = [55, 32, 56, 93], running = False, state = Inside 0\<rparr>,
      m_cursor_visitor = BeginArray, m_buffer = [91, 55, 32, 56, 93],
      m_buffer_length = 16384, m_eof = False, m_begin = False, m_capacity = 16384\<rparr>"

text \<open>
  A cursor that has read the one-scalar document \<open>7\<close> to its end, and the primed cursor
  of the fixed-slice variant over \<open>EF BB BF [ 7 ]\<close>.
\<close>

definition example_done :: "(nat, nat list_source, toy_parser, toy_event) yaml_cursor" where
  "example_done =
     \<lparr>m_source = ([], True),
      m_parser = \<lparr>rest = [], running = False, state = Done\<rparr>,
      m_cursor_visitor = Scalar 55, m_buffer = [55],
      m_buffer_length = 16384, m_eof = True, m_begin = False, m_capacity = 16384\<rparr>"

definition example_slice :: "(nat, nat list_source, toy_parser, toy_event) yaml_cursor" where
  "example_slice =
     \<lparr>m_source = ([], False),
      m_parser = \<lparr>rest = [55, 93], running = False, state = Inside 0\<rparr>,
      m_cursor_visitor = BeginArray, m_buffer = [],
      m_buffer_length = 0, m_eof = False, m_begin = False, m_capacity = 0\<rparr>"

text \<open>
  Cursors that have read the first value of \<open>7 8\<close> and of \<open>7\<close> followed by two spaces,
  and are done.
\<close>

definition example_trailing_value :: "(nat, nat list_source, toy_parser, toy_event) yaml_cursor" where
  "example_trailing_value =
     \<lparr>m_source = ([], True),
      m_parser = \<lparr>rest = [32, 56], running = False, state = Done\<rparr>,
      m_cursor_visitor = Scalar 55, m_buffer = [55, 32, 56],
      m_buffer_length = 16384, m_eof = False, m_begin = False, m_capacity = 16384\<rparr>"

definition example_trailing_space :: "(nat, nat list_source, toy_parser, toy_event) yaml_cursor" where
  "example_trailing_space =
     \<lparr>m_source = ([], True),
      m_parser = \<lparr>rest = [32, 32], running = False, state = Done\<rparr>,
      m_cursor_visitor = Scalar 55, m_buffer = [55, 32, 32],
      m_buffer_length = 16384, m_eof = False, m_begin = False, m_capacity = 16384\<rparr>"

text \<open>
  Inputs that do not fit the first chunk: \<open>7\<close>, then 16384 spaces and \<open>8\<close>, and \<open>7\<close>, then
  16385 spaces. The cursors have read the first value; the last two units are still in
  the source.
\<close>

definition padding :: "nat list" where
  "padding = replicate 16383 32"

definition example_long_value :: "(nat, nat list_source, toy_parser, toy_event) yaml_cursor" where
  "example_long_value =
     \<lparr>m_source = ([32, 56], False),
      m_parser = \<lparr>rest = padding, running = False, state = Done\<rparr>,
      m_cursor_visitor = Scalar 55, m_buffer = 55 # padding,
      m_buffer_length = 16384, m_eof = False, m_begin = False, m_capacity = 16384\<rparr>"

definition example_long_space :: "(nat, nat list_source, toy_parser, toy_event) yaml_cursor" where
  "example_long_space =
     \<lparr>m_source = ([32, 32], False),
      m_parser = \<lparr>rest = padding, running = False, state = Done\<rparr>,
      m_cursor_visitor = Scalar 55, m_buffer = 55 # padding,
      m_buffer_length = 16384, m_eof = False, m_begin = False, m_capacity = 16384\<rparr>"


section \<open>Properties\<close>

subsection \<open>The loops, one iteration at a time\<close>

lemma read_next_loop_Suc:
  "read_next_loop ops (Suc n) c ec =
     (if p_stopped ops (m_parser c) then Some (c, ec)
      else if refill_failed ops c ec then Some (refill_block ops c ec)
      else
        (case deliver (p_parse_some ops (m_parser (fst (refill_block ops c ec)))) (staj_visit ops)
                (m_cursor_visitor (fst (refill_block ops c ec))) of
           (p', e, cv') \<Rightarrow>
             if set_ec e (snd (refill_block ops c ec)) \<noteq> None
             then Some ((fst (refill_block ops c ec))\<lparr>m_parser := p', m_cursor_visitor := cv'\<rparr>,
                        set_ec e (snd (refill_block ops c ec)))
             else read_next_loop ops n
                    ((fst (refill_block ops c ec))\<lparr>m_parser := p', m_cursor_visitor := cv'\<rparr>)
                    (set_ec e (snd (refill_block ops c ec)))))"
  by (simp add: refill_block_def refill_failed_def Let_def split: prod.splits)

lemma read_next_visitor_loop_Suc:
  "read_next_visitor_loop ops (Suc n) v c ec s =
     (if p_stopped ops (m_parser c) then Some (c, ec, s)
      else if refill_failed ops c ec then Some (fst (refill_block ops c ec), snd (refill_block ops c ec), s)
      else
        (case deliver (p_parse_some ops (m_parser (fst (refill_block ops c ec)))) v s of
           (p', e, s') \<Rightarrow>
             if set_ec e (snd (refill_block ops c ec)) \<noteq> None
             then Some ((fst (refill_block ops c ec))\<lparr>m_parser := p'\<rparr>,
                        set_ec e (snd (refill_block ops c ec)), s')
             else read_next_visitor_loop ops n v
                    ((fst (refill_block ops c ec))\<lparr>m_parser := p'\<rparr>)
                    (set_ec e (snd (refill_block ops c ec))) s'))"
  by (simp add: refill_block_def refill_failed_def Let_def split: prod.splits)

lemma check_done_loop_Suc:
  "check_done_loop ops (Suc n) c ec =
     (if m_eof c then Some (c, ec)
      else if refill_failed ops c ec then Some (refill_block ops c ec)
      else if \<not> m_eof (fst (refill_block ops c ec)) then
        (case p_check_done ops (m_parser (fst (refill_block ops c ec))) of
           (p', e) \<Rightarrow>
             if set_ec e (snd (refill_block ops c ec)) \<noteq> None
             then Some ((fst (refill_block ops c ec))\<lparr>m_parser := p'\<rparr>,
                        set_ec e (snd (refill_block ops c ec)))
             else check_done_loop ops n ((fst (refill_block ops c ec))\<lparr>m_parser := p'\<rparr>)
                    (set_ec e (snd (refill_block ops c ec))))
      else check_done_loop ops n (fst (refill_block ops c ec)) (snd (refill_block ops c ec)))"
  by (simp add: refill_block_def refill_failed_def Let_def split: prod.splits)

subsection \<open>Evaluating the cursor on concrete inputs\<close>

text \<open>
  With a numeral for the fuel, each loop unfolds by one iteration to the numeral's
  predecessor.
\<close>

lemma read_next_loop_numeral:
  "read_next_loop ops (numeral k) c ec =
     (if p_stopped ops (m_parser c) then Some (c, ec)
      else if refill_failed ops c ec then Some (refill_block ops c ec)
      else
        (case deliver (p_parse_some ops (m_parser (fst (refill_block ops c ec)))) (staj_visit ops)
                (m_cursor_visitor (fst (refill_block ops c ec))) of
           (p', e, cv') \<Rightarrow>
             if set_ec e (snd (refill_block ops c ec)) \<noteq> None
             then Some ((fst (refill_block ops c ec))\<lparr>m_parser := p', m_cursor_visitor := cv'\<rparr>,
                        set_ec e (snd (refill_block ops c ec)))
             else read_next_loop ops (pred_numeral k)
                    ((fst (refill_block ops c ec))\<lparr>m_parser := p', m_cursor_visitor := cv'\<rparr>)
                    (set_ec e (snd (refill_block ops c ec)))))"
  using read_next_loop_Suc[where n = "pred_numeral k"] by (simp only: numeral_eq_Suc)

lemma read_next_visitor_loop_numeral:
  "read_next_visitor_loop ops (numeral k) v c ec s =
     (if p_stopped ops (m_parser c) then Some (c, ec, s)
      else if refill_failed ops c ec then Some (fst (refill_block ops c ec), snd (refill_block ops c ec), s)
      else
        (case deliver (p_parse_some ops (m_parser (fst (refill_block ops c ec)))) v s of
           (p', e, s') \<Rightarrow>
             if set_ec e (snd (refill_block ops c ec)) \<noteq> None
             then Some ((fst (refill_block ops c ec))\<lparr>m_parser := p'\<rparr>,
                        set_ec e (snd (refill_block ops c ec)), s')
             else read_next_visitor_loop ops (pred_numeral k) v
                    ((fst (refill_block ops c ec))\<lparr>m_parser := p'\<rparr>)
                    (set_ec e (snd (refill_block ops c ec))) s'))"
  using read_next_visitor_loop_Suc[where n = "pred_numeral k"] by (simp only: numeral_eq_Suc)

lemma check_done_loop_numeral:
  "check_done_loop ops (numeral k) c ec =
     (if m_eof c then Some (c, ec)
      else if refill_failed ops c ec then Some (refill_block ops c ec)
      else if \<not> m_eof (fst (refill_block ops c ec)) then
        (case p_check_done ops (m_parser (fst (refill_block ops c ec))) of
           (p', e) \<Rightarrow>
             if set_ec e (snd (refill_block ops c ec)) \<noteq> None
             then Some ((fst (refill_block ops c ec))\<lparr>m_parser := p'\<rparr>,
                        set_ec e (snd (refill_block ops c ec)))
             else check_done_loop ops (pred_numeral k) ((fst (refill_block ops c ec))\<lparr>m_parser := p'\<rparr>)
                    (set_ec e (snd (refill_block ops c ec))))
      else check_done_loop ops (pred_numeral k) (fst (refill_block ops c ec)) (snd (refill_block ops c ec)))"
  using check_done_loop_Suc[where n = "pred_numeral k"] by (simp only: numeral_eq_Suc)


lemma pull_events_numeral:
  "pull_events ops (numeral k) c =
     (if cursor_done ops c then Some ([], c, None)
      else
        (case next_ec ops (numeral k) c None of
           None \<Rightarrow> None
         | Some (c', Some e) \<Rightarrow> Some ([current c], c', Some e)
         | Some (c', None) \<Rightarrow>
             (case pull_events ops (pred_numeral k) c' of
                None \<Rightarrow> None
              | Some (evs, r) \<Rightarrow> Some (current c # evs, r))))"
  using pull_events.simps(2)[where n = "pred_numeral k"] by (simp only: numeral_eq_Suc)

lemmas cursor_eval =
  yaml_cursor_stream_ec_def yaml_cursor_stream_def yaml_cursor_slice_ec_def yaml_cursor_slice_def
  stream_init_def slice_init_def cursor_done_def current_def next_ec_def read_next_def
  read_to_ec_def read_next_visitor_def staj_to_saj_event_def check_done_ec_def
  next_throwing_def read_to_throwing_def check_done_throwing_def
  read_buffer_def set_ec_def set_buffer_length_def default_max_buffer_length_def
  refill_block_def refill_failed_def
  read_next_loop_numeral read_next_visitor_loop_numeral check_done_loop_numeral pull_events_numeral

lemmas toy_eval =
  toy_ops_def list_read_def bom_scan_def toy_parse_some_def recorder_def

subsection \<open>Invariants of the loops\<close>

text \<open>
  A property of the cursor that \<^verbatim>\<open>read_buffer\<close>, setting \<^verbatim>\<open>eof_\<close> and replacing the parser
  or the cached event preserve is preserved by every operation.
\<close>

lemma read_next_loop_invariant:
  assumes rb: "\<And>c ec. I c \<Longrightarrow> I (fst (read_buffer ops c ec))"
    and ef: "\<And>c. I c \<Longrightarrow> I (c\<lparr>m_eof := True\<rparr>)"
    and ps: "\<And>c p cv. I c \<Longrightarrow> I (c\<lparr>m_parser := p, m_cursor_visitor := cv\<rparr>)"
  shows "I c \<Longrightarrow> read_next_loop ops n c ec = Some (c', ec') \<Longrightarrow> I c'"
proof (induction n arbitrary: c ec)
  case 0
  then show ?case by simp
next
  case (Suc n)
  have fill: "I (fst (refill_block ops c ec))"
    using Suc.prems(1) rb ef by (simp add: refill_block_def)
  obtain p' e cv' where d: "deliver (p_parse_some ops (m_parser (fst (refill_block ops c ec)))) (staj_visit ops)
                (m_cursor_visitor (fst (refill_block ops c ec))) = (p', e, cv')"
    by (cases "deliver (p_parse_some ops (m_parser (fst (refill_block ops c ec)))) (staj_visit ops)
                (m_cursor_visitor (fst (refill_block ops c ec)))") auto
  have after: "I ((fst (refill_block ops c ec))\<lparr>m_parser := p', m_cursor_visitor := cv'\<rparr>)"
    using fill ps by simp
  show ?case
    using Suc.prems fill after d Suc.IH[OF after]
    by (auto simp: read_next_loop_Suc simp del: read_next_loop.simps split: if_splits)
qed


lemma read_next_visitor_loop_invariant:
  assumes rb: "\<And>c ec. I c \<Longrightarrow> I (fst (read_buffer ops c ec))"
    and ef: "\<And>c. I c \<Longrightarrow> I (c\<lparr>m_eof := True\<rparr>)"
    and ps: "\<And>c p. I c \<Longrightarrow> I (c\<lparr>m_parser := p\<rparr>)"
  shows "I c \<Longrightarrow> read_next_visitor_loop ops n v c ec s = Some (c', ec', s') \<Longrightarrow> I c'"
proof (induction n arbitrary: c ec s)
  case 0
  then show ?case by simp
next
  case (Suc n)
  have fill: "I (fst (refill_block ops c ec))"
    using Suc.prems(1) rb ef by (simp add: refill_block_def)
  obtain p' e s1 where d: "deliver (p_parse_some ops (m_parser (fst (refill_block ops c ec)))) v s = (p', e, s1)"
    by (cases "deliver (p_parse_some ops (m_parser (fst (refill_block ops c ec)))) v s") auto
  have after: "I ((fst (refill_block ops c ec))\<lparr>m_parser := p'\<rparr>)"
    using fill ps by simp
  show ?case
    using Suc.prems fill after d Suc.IH[OF after]
    by (auto simp: read_next_visitor_loop_Suc simp del: read_next_visitor_loop.simps split: if_splits)
qed

lemma check_done_loop_invariant:
  assumes rb: "\<And>c ec. I c \<Longrightarrow> I (fst (read_buffer ops c ec))"
    and ef: "\<And>c. I c \<Longrightarrow> I (c\<lparr>m_eof := True\<rparr>)"
    and ps: "\<And>c p. I c \<Longrightarrow> I (c\<lparr>m_parser := p\<rparr>)"
  shows "I c \<Longrightarrow> check_done_loop ops n c ec = Some (c', ec') \<Longrightarrow> I c'"
proof (induction n arbitrary: c ec)
  case 0
  then show ?case by simp
next
  case (Suc n)
  have fill: "I (fst (refill_block ops c ec))"
    using Suc.prems(1) rb ef by (simp add: refill_block_def)
  obtain p' e where d: "p_check_done ops (m_parser (fst (refill_block ops c ec))) = (p', e)"
    by (cases "p_check_done ops (m_parser (fst (refill_block ops c ec)))") auto
  have after: "I ((fst (refill_block ops c ec))\<lparr>m_parser := p'\<rparr>)"
    using fill ps by simp
  show ?case
    using Suc.prems fill after d Suc.IH[OF after] Suc.IH[OF fill]
    by (auto simp: check_done_loop_Suc simp del: check_done_loop.simps split: if_splits)
qed


lemma next_ec_invariant:
  assumes rb: "\<And>c ec. I c \<Longrightarrow> I (fst (read_buffer ops c ec))"
    and ef: "\<And>c. I c \<Longrightarrow> I (c\<lparr>m_eof := True\<rparr>)"
    and ps: "\<And>c p cv. I c \<Longrightarrow> I (c\<lparr>m_parser := p, m_cursor_visitor := cv\<rparr>)"
    and pp: "\<And>c p. I c \<Longrightarrow> I (c\<lparr>m_parser := p\<rparr>)"
  shows "I c \<Longrightarrow> next_ec ops n c ec = Some (c', ec') \<Longrightarrow> I c'"
proof -
  assume i: "I c" and r: "next_ec ops n c ec = Some (c', ec')"
  have a: "read_next_loop ops n (c\<lparr>m_parser := p_restart ops (m_parser c)\<rparr>) ec = Some (c', ec')"
    using r by (simp add: next_ec_def read_next_def)
  have b: "I (c\<lparr>m_parser := p_restart ops (m_parser c)\<rparr>)"
    by (rule pp[OF i])
  show "I c'"
    by (rule read_next_loop_invariant[where I = I and ops = ops, OF rb ef ps b a])
qed

lemma read_to_ec_invariant:
  assumes rb: "\<And>c ec. I c \<Longrightarrow> I (fst (read_buffer ops c ec))"
    and ef: "\<And>c. I c \<Longrightarrow> I (c\<lparr>m_eof := True\<rparr>)"
    and pp: "\<And>c p. I c \<Longrightarrow> I (c\<lparr>m_parser := p\<rparr>)"
  shows "I c \<Longrightarrow> read_to_ec ops n v c ec s = Some (c', ec', s') \<Longrightarrow> I c'"
proof -
  assume i: "I c" and r: "read_to_ec ops n v c ec s = Some (c', ec', s')"
  obtain b s1 where st: "staj_to_saj_event (m_cursor_visitor c) v s = (b, s1)"
    by (cases "staj_to_saj_event (m_cursor_visitor c) v s") auto
  show "I c'"
  proof (cases b)
    case True
    with r st have a: "read_next_visitor_loop ops n v (c\<lparr>m_parser := p_restart ops (m_parser c)\<rparr>) ec s1
        = Some (c', ec', s')"
      by (simp add: read_to_ec_def read_next_visitor_def)
    have b: "I (c\<lparr>m_parser := p_restart ops (m_parser c)\<rparr>)"
      by (rule pp[OF i])
    show ?thesis
      by (rule read_next_visitor_loop_invariant[where I = I and ops = ops, OF rb ef pp b a])
  next
    case False
    with r st i show ?thesis by (simp add: read_to_ec_def)
  qed
qed

lemma check_done_ec_invariant:
  assumes rb: "\<And>c ec. I c \<Longrightarrow> I (fst (read_buffer ops c ec))"
    and ef: "\<And>c. I c \<Longrightarrow> I (c\<lparr>m_eof := True\<rparr>)"
    and pp: "\<And>c p. I c \<Longrightarrow> I (c\<lparr>m_parser := p\<rparr>)"
  shows "I c \<Longrightarrow> check_done_ec ops n c ec = Some (c', ec') \<Longrightarrow> I c'"
proof -
  assume i: "I c" and r: "check_done_ec ops n c ec = Some (c', ec')"
  show "I c'"
  proof (cases "src_is_error ops (m_source c) \<or> m_eof c")
    case True
    with r i pp show ?thesis
      by (auto simp: check_done_ec_def split: prod.splits if_splits)
  next
    case False
    with r have a: "check_done_loop ops n c ec = Some (c', ec')"
      by (simp add: check_done_ec_def)
    show ?thesis
      by (rule check_done_loop_invariant[where I = I and ops = ops, OF rb ef pp i a])
  qed
qed

lemma read_buffer_begin_False:
  "\<not> m_begin c \<Longrightarrow> \<not> m_begin (fst (read_buffer ops c ec))"
  by (simp add: read_buffer_def Let_def split: prod.splits option.splits)


subsection \<open>How the loops end, and what the sinks receive\<close>

lemma refill_failed_ec:
  "refill_failed ops c ec \<Longrightarrow> snd (refill_block ops c ec) \<noteq> None"
  by (simp add: refill_failed_def refill_block_def)

lemma read_next_loop_post:
  "read_next_loop ops n c ec = Some (c', ec') \<Longrightarrow> ec' \<noteq> None \<or> p_stopped ops (m_parser c')"
proof (induction n arbitrary: c ec)
  case 0
  then show ?case by simp
next
  case (Suc n)
  let ?f = "refill_block ops c ec"
  obtain p' e cv' where d: "deliver (p_parse_some ops (m_parser (fst ?f))) (staj_visit ops)
                (m_cursor_visitor (fst ?f)) = (p', e, cv')"
    by (cases "deliver (p_parse_some ops (m_parser (fst ?f))) (staj_visit ops)
                (m_cursor_visitor (fst ?f))") auto
  consider (stop) "p_stopped ops (m_parser c)"
    | (fail) "\<not> p_stopped ops (m_parser c)" "refill_failed ops c ec"
    | (err) "\<not> p_stopped ops (m_parser c)" "\<not> refill_failed ops c ec" "set_ec e (snd ?f) \<noteq> None"
    | (go) "\<not> p_stopped ops (m_parser c)" "\<not> refill_failed ops c ec" "set_ec e (snd ?f) = None"
    by blast
  then show ?case
  proof cases
    case stop
    with Suc.prems show ?thesis by (simp add: read_next_loop_Suc del: read_next_loop.simps)
  next
    case fail
    with Suc.prems have "(c', ec') = ?f"
      by (simp add: read_next_loop_Suc del: read_next_loop.simps)
    with refill_failed_ec[OF fail(2)] show ?thesis by (metis snd_conv)
  next
    case err
    with Suc.prems d show ?thesis
      by (auto simp add: read_next_loop_Suc simp del: read_next_loop.simps)
  next
    case go
    with Suc.prems d have "read_next_loop ops n ((fst ?f)\<lparr>m_parser := p', m_cursor_visitor := cv'\<rparr>) None
        = Some (c', ec')"
      by (simp add: read_next_loop_Suc del: read_next_loop.simps)
    then show ?thesis by (rule Suc.IH)
  qed
qed

lemma check_done_loop_post:
  "check_done_loop ops n c ec = Some (c', ec') \<Longrightarrow> ec' \<noteq> None \<or> m_eof c'"
proof (induction n arbitrary: c ec)
  case 0
  then show ?case by simp
next
  case (Suc n)
  let ?f = "refill_block ops c ec"
  obtain p' e where d: "p_check_done ops (m_parser (fst ?f)) = (p', e)"
    by (cases "p_check_done ops (m_parser (fst ?f))") auto
  consider (stop) "m_eof c"
    | (fail) "\<not> m_eof c" "refill_failed ops c ec"
    | (ateof) "\<not> m_eof c" "\<not> refill_failed ops c ec" "m_eof (fst ?f)"
    | (err) "\<not> m_eof c" "\<not> refill_failed ops c ec" "\<not> m_eof (fst ?f)" "set_ec e (snd ?f) \<noteq> None"
    | (go) "\<not> m_eof c" "\<not> refill_failed ops c ec" "\<not> m_eof (fst ?f)" "set_ec e (snd ?f) = None"
    by blast
  then show ?case
  proof cases
    case stop
    with Suc.prems show ?thesis by (simp add: check_done_loop_Suc del: check_done_loop.simps)
  next
    case fail
    with Suc.prems have "(c', ec') = ?f"
      by (simp add: check_done_loop_Suc del: check_done_loop.simps)
    with refill_failed_ec[OF fail(2)] show ?thesis by (metis snd_conv)
  next
    case ateof
    with Suc.prems have "check_done_loop ops n (fst ?f) (snd ?f) = Some (c', ec')"
      by (simp add: check_done_loop_Suc del: check_done_loop.simps)
    then show ?thesis by (rule Suc.IH)
  next
    case err
    with Suc.prems d show ?thesis
      by (auto simp add: check_done_loop_Suc simp del: check_done_loop.simps)
  next
    case go
    with Suc.prems d have "check_done_loop ops n ((fst ?f)\<lparr>m_parser := p'\<rparr>) None = Some (c', ec')"
      by (simp add: check_done_loop_Suc del: check_done_loop.simps)
    then show ?thesis by (rule Suc.IH)
  qed
qed

lemma read_buffer_cache:
  "read_buffer ops (c\<lparr>m_cursor_visitor := s\<rparr>) ec =
     ((fst (read_buffer ops c ec))\<lparr>m_cursor_visitor := s\<rparr>, snd (read_buffer ops c ec))"
  by (simp add: read_buffer_def Let_def split: prod.splits option.splits)

lemma refill_block_cache:
  "refill_block ops (c\<lparr>m_cursor_visitor := s\<rparr>) ec =
     ((fst (refill_block ops c ec))\<lparr>m_cursor_visitor := s\<rparr>, snd (refill_block ops c ec))"
  by (simp add: refill_block_def read_buffer_cache)

lemma refill_failed_cache:
  "refill_failed ops (c\<lparr>m_cursor_visitor := s\<rparr>) ec = refill_failed ops c ec"
  by (simp add: refill_failed_def read_buffer_cache)

lemma read_next_loop_as_visitor_loop:
  "read_next_loop ops n (c\<lparr>m_cursor_visitor := s\<rparr>) ec =
     map_option (\<lambda>(c', ec', s'). (c'\<lparr>m_cursor_visitor := s'\<rparr>, ec'))
       (read_next_visitor_loop ops n (staj_visit ops) c ec s)"
proof (induction n arbitrary: c ec s)
  case 0
  then show ?case by simp
next
  case (Suc n)
  obtain p' e s' where d: "deliver (p_parse_some ops (m_parser (fst (refill_block ops c ec)))) (staj_visit ops) s = (p', e, s')"
    by (cases "deliver (p_parse_some ops (m_parser (fst (refill_block ops c ec)))) (staj_visit ops) s") auto
  have upd: "(fst (refill_block ops c ec))\<lparr>m_cursor_visitor := s, m_parser := p', m_cursor_visitor := s'\<rparr>
      = (fst (refill_block ops c ec))\<lparr>m_parser := p', m_cursor_visitor := s'\<rparr>"
    by simp
  show ?case
    using d Suc.IH[where c = "(fst (refill_block ops c ec))\<lparr>m_parser := p'\<rparr>"
        and ec = "set_ec e (snd (refill_block ops c ec))" and s = s']
    by (auto simp add: read_next_loop_Suc read_next_visitor_loop_Suc refill_block_cache refill_failed_cache upd
        simp del: read_next_loop.simps read_next_visitor_loop.simps)
qed

lemma read_next_visitor_loop_cache:
  "read_next_visitor_loop ops n v c ec s = Some (c', ec', s') \<Longrightarrow> m_cursor_visitor c' = m_cursor_visitor c"
proof -
  assume a: "read_next_visitor_loop ops n v c ec s = Some (c', ec', s')"
  have "(\<lambda>x. m_cursor_visitor x = m_cursor_visitor c) c'"
    by (rule read_next_visitor_loop_invariant[where I = "\<lambda>x. m_cursor_visitor x = m_cursor_visitor c" and ops = ops, OF _ _ _ _ a])
       (simp_all add: read_buffer_def Let_def split: prod.splits option.splits)
  then show ?thesis by simp
qed


lemma deliver_recorder_appends:
  "deliver run recorder log = (p, e, log') \<Longrightarrow> \<exists>r. log' = log @ r"
proof (induction run arbitrary: log)
  case (Ret p0 e0)
  then show ?case by simp
next
  case (Emit ev k)
  have "recorder ev log = (True, log @ [ev])"
    by (simp add: recorder_def)
  with Emit.prems have "deliver (k True) recorder (log @ [ev]) = (p, e, log')"
    by simp
  from Emit.IH[OF _ this] obtain r where "log' = (log @ [ev]) @ r" by blast
  then show ?case by simp
qed

lemma read_next_visitor_loop_recorder_appends:
  "read_next_visitor_loop ops n recorder c ec log = Some (c', ec', log') \<Longrightarrow> \<exists>r. log' = log @ r"
proof (induction n arbitrary: c ec log)
  case 0
  then show ?case by simp
next
  case (Suc n)
  let ?f = "refill_block ops c ec"
  obtain p' e l1 where d: "deliver (p_parse_some ops (m_parser (fst ?f))) recorder log = (p', e, l1)"
    by (cases "deliver (p_parse_some ops (m_parser (fst ?f))) recorder log") auto
  from deliver_recorder_appends[OF d] obtain r1 where r1: "l1 = log @ r1" by blast
  consider (stop) "p_stopped ops (m_parser c)"
    | (fail) "\<not> p_stopped ops (m_parser c)" "refill_failed ops c ec"
    | (err) "\<not> p_stopped ops (m_parser c)" "\<not> refill_failed ops c ec" "set_ec e (snd ?f) \<noteq> None"
    | (go) "\<not> p_stopped ops (m_parser c)" "\<not> refill_failed ops c ec" "set_ec e (snd ?f) = None"
    by blast
  then show ?case
  proof cases
    case stop
    with Suc.prems show ?thesis
      by (simp add: read_next_visitor_loop_Suc del: read_next_visitor_loop.simps)
  next
    case fail
    with Suc.prems show ?thesis
      by (simp add: read_next_visitor_loop_Suc del: read_next_visitor_loop.simps)
  next
    case err
    with Suc.prems d r1 show ?thesis
      by (auto simp add: read_next_visitor_loop_Suc simp del: read_next_visitor_loop.simps)
  next
    case go
    with Suc.prems d have "read_next_visitor_loop ops n recorder ((fst ?f)\<lparr>m_parser := p'\<rparr>) None l1
        = Some (c', ec', log')"
      by (simp add: read_next_visitor_loop_Suc del: read_next_visitor_loop.simps)
    from Suc.IH[OF this] obtain r where "log' = l1 @ r" by blast
    with r1 show ?thesis by simp
  qed
qed

lemma read_buffer_zero_length:
  "src_read_bounded ops \<Longrightarrow> m_buffer_length c = 0 \<Longrightarrow> \<not> m_begin c \<Longrightarrow>
     m_buffer_length (fst (read_buffer ops c ec)) = 0 \<and> m_buffer (fst (read_buffer ops c ec)) = []
     \<and> \<not> m_begin (fst (read_buffer ops c ec))"
proof -
  assume b: "src_read_bounded ops" and z: "m_buffer_length c = 0" and nb: "\<not> m_begin c"
  have "length (fst (src_read ops 0 (m_source c))) \<le> 0"
    using b unfolding src_read_bounded_def by blast
  then have "fst (src_read ops (m_buffer_length c) (m_source c)) = []"
    using z by simp
  then show ?thesis
    using z nb by (auto simp add: read_buffer_def Let_def split: prod.splits)
qed

lemma read_buffer_keeps_length:
  "m_buffer_length (fst (read_buffer ops c ec)) = m_buffer_length c"
  by (simp add: read_buffer_def Let_def split: prod.splits option.splits)

lemma next_ec_slice_shape:
  assumes b: "src_read_bounded ops" and i: "slice_shape c" and r: "next_ec ops n c ec = Some (c', ec')"
  shows "slice_shape c'"
  by (rule next_ec_invariant[where I = slice_shape and ops = ops, OF _ _ _ _ i r])
     (use read_buffer_zero_length[OF b] in \<open>simp_all add: slice_shape_def\<close>)

lemma next_ec_stream_length:
  assumes i: "m_buffer_length c = k" and r: "next_ec ops n c ec = Some (c', ec')"
  shows "m_buffer_length c' = k"
  by (rule next_ec_invariant[where I = "\<lambda>c. m_buffer_length c = k" and ops = ops, OF _ _ _ _ i r])
     (simp_all add: read_buffer_keeps_length)

text \<open>
  The chunk length stays within the capacity of the buffer: it does after construction,
  every operation of the cursor keeps it so, and so does a \<^verbatim>\<open>buffer_length(n)\<close> that
  returns.
\<close>

lemma read_buffer_within_capacity:
  "m_buffer_length c \<le> m_capacity c \<Longrightarrow>
     m_buffer_length (fst (read_buffer ops c ec)) \<le> m_capacity (fst (read_buffer ops c ec))"
  by (simp add: read_buffer_def Let_def split: prod.splits option.splits)

lemma length_within_capacity:
  "m_buffer_length (stream_init ops src) \<le> m_capacity (stream_init ops src)"
  "m_buffer_length (slice_init ops) \<le> m_capacity (slice_init ops)"
  "m_buffer_length c \<le> m_capacity c \<Longrightarrow> next_ec ops n c ec = Some (c', ec')
     \<Longrightarrow> m_buffer_length c' \<le> m_capacity c'"
  "m_buffer_length c \<le> m_capacity c \<Longrightarrow> read_to_ec ops n v c ec s = Some (c', ec', s')
     \<Longrightarrow> m_buffer_length c' \<le> m_capacity c'"
  "m_buffer_length c \<le> m_capacity c \<Longrightarrow> check_done_ec ops n c ec = Some (c', ec')
     \<Longrightarrow> m_buffer_length c' \<le> m_capacity c'"
  "set_buffer_length ops k c = Reserved c' \<or> set_buffer_length ops k c = Reallocated c'
     \<Longrightarrow> m_buffer_length c' \<le> m_capacity c'"
proof -
  show "m_buffer_length (stream_init ops src) \<le> m_capacity (stream_init ops src)"
    "m_buffer_length (slice_init ops) \<le> m_capacity (slice_init ops)"
    by (simp_all add: stream_init_def slice_init_def)
  show "m_buffer_length c \<le> m_capacity c \<Longrightarrow> next_ec ops n c ec = Some (c', ec')
     \<Longrightarrow> m_buffer_length c' \<le> m_capacity c'"
    by (rule next_ec_invariant[where I = "\<lambda>c. m_buffer_length c \<le> m_capacity c" and ops = ops])
       (simp_all add: read_buffer_within_capacity)
  show "m_buffer_length c \<le> m_capacity c \<Longrightarrow> read_to_ec ops n v c ec s = Some (c', ec', s')
     \<Longrightarrow> m_buffer_length c' \<le> m_capacity c'"
    by (rule read_to_ec_invariant[where I = "\<lambda>c. m_buffer_length c \<le> m_capacity c" and ops = ops])
       (simp_all add: read_buffer_within_capacity)
  show "m_buffer_length c \<le> m_capacity c \<Longrightarrow> check_done_ec ops n c ec = Some (c', ec')
     \<Longrightarrow> m_buffer_length c' \<le> m_capacity c'"
    by (rule check_done_ec_invariant[where I = "\<lambda>c. m_buffer_length c \<le> m_capacity c" and ops = ops])
       (simp_all add: read_buffer_within_capacity)
  show "set_buffer_length ops k c = Reserved c' \<or> set_buffer_length ops k c = Reallocated c'
     \<Longrightarrow> m_buffer_length c' \<le> m_capacity c'"
    by (auto simp add: set_buffer_length_def Let_def split: if_splits)
qed

subsection \<open>Pull and push over a resumable tokenizer\<close>

lemma set_ec_None [simp]: "set_ec e None = e"
  by (cases e) (simp_all add: set_ec_def)

lemma refill_block_ok:
  "\<not> refill_failed ops c None \<Longrightarrow> snd (refill_block ops c None) = None"
  by (auto simp: refill_failed_def refill_block_def)

lemma push_head_Suc:
  "read_next_visitor_loop ops (Suc m) recorder c None log =
     (if p_stopped ops (m_parser c) then Some (c, None, log)
      else if refill_failed ops c None
        then Some (fst (refill_block ops c None), snd (refill_block ops c None), log)
      else push_rest ops m (fst (refill_block ops c None)) log
             (p_parse_some ops (m_parser (fst (refill_block ops c None)))))"
  by (auto simp add: read_next_visitor_loop_Suc push_rest_def refill_block_ok
      simp del: read_next_visitor_loop.simps split: prod.splits)

lemma pull_head_Suc:
  "pull_from_head ops (Suc k) n (c\<lparr>m_cursor_visitor := x\<rparr>) =
     (if p_stopped ops (m_parser c) then pull_events ops n (c\<lparr>m_cursor_visitor := x\<rparr>)
      else if refill_failed ops c None
        then Some ([], (fst (refill_block ops c None))\<lparr>m_cursor_visitor := x\<rparr>, snd (refill_block ops c None))
      else pull_rest ops k n (fst (refill_block ops c None)) x
             (p_parse_some ops (m_parser (fst (refill_block ops c None)))))"
  using refill_failed_ec[of ops c None]
  by (auto simp add: pull_from_head_def read_next_loop_Suc pull_rest_def refill_block_ok
      refill_block_cache refill_failed_cache
      simp del: read_next_loop.simps pull_events.simps split: prod.splits option.splits)

lemma pull_head_0: "pull_from_head ops 0 n c = None"
  by (simp add: pull_from_head_def)

lemma pull_events_Suc:
  "pull_events ops (Suc n) c =
     (if cursor_done ops c then Some ([], c, None)
      else map_option (\<lambda>(evs, r). (current c # evs, r))
             (pull_from_head ops (Suc n) n (c\<lparr>m_parser := p_restart ops (m_parser c)\<rparr>)))"
  by (auto simp add: pull_from_head_def next_ec_def read_next_def
      simp del: read_next_loop.simps split: option.splits prod.splits)

lemma pull_rest_Ret:
  "pull_rest ops k n c1 x (Ret p' e) =
     (if e \<noteq> None then Some ([], c1\<lparr>m_parser := p', m_cursor_visitor := x\<rparr>, e)
      else pull_from_head ops k n (c1\<lparr>m_parser := p', m_cursor_visitor := x\<rparr>))"
  by (simp add: pull_rest_def)

lemma push_rest_Ret:
  "push_rest ops m c1 log (Ret p' e) =
     (if e \<noteq> None then Some (c1\<lparr>m_parser := p'\<rparr>, e, log)
      else read_next_visitor_loop ops m recorder (c1\<lparr>m_parser := p'\<rparr>) None log)"
  by (simp add: push_rest_def)

lemma push_rest_Emit:
  "push_rest ops m c1 log (Emit ev k) = push_rest ops m c1 (log @ [ev]) (k True)"
  by (simp add: push_rest_def recorder_def)

lemma push_rest_parser:
  "push_rest ops m (c1\<lparr>m_parser := p\<rparr>) log t = push_rest ops m c1 log t"
  by (simp add: push_rest_def split: prod.splits)


lemma pull_rest_parser:
  "pull_rest ops k n (c1\<lparr>m_parser := p\<rparr>) x t = pull_rest ops k n c1 x t"
  by (simp add: pull_rest_def split: prod.splits)

lemma contract_cache:
  "tokenizer_resumable ops \<Longrightarrow> staj_visit ops ev x = (False, ev)"
  by (simp add: tokenizer_resumable_def)

lemma contract_restart:
  "tokenizer_resumable ops \<Longrightarrow> \<not> p_stopped ops (p_restart ops p)"
  "tokenizer_resumable ops \<Longrightarrow> p_source_exhausted ops (p_restart ops p) = p_source_exhausted ops p"
  by (simp_all add: tokenizer_resumable_def)

lemma contract_Emit:
  assumes "tokenizer_resumable ops" "\<not> p_stopped ops p" "p_parse_some ops p = Emit ev k"
  obtains p1 where "k False = Ret p1 None" "p_stopped ops p1" "\<not> p_done ops p1"
    "k True = (if p_source_exhausted ops p1 then Ret (p_restart ops p1) None
               else p_parse_some ops (p_restart ops p1))"
  using assms unfolding tokenizer_resumable_def by blast

lemma contract_Ret:
  "tokenizer_resumable ops \<Longrightarrow> \<not> p_stopped ops p \<Longrightarrow> p_parse_some ops p = Ret p' None
    \<Longrightarrow> p_stopped ops p' \<Longrightarrow> p_done ops p'"
  unfolding tokenizer_resumable_def by blast

lemma pull_rest_Emit:
  assumes "tokenizer_resumable ops" "k False = Ret p1 None"
  shows "pull_rest ops j n c1 x (Emit ev k) =
           pull_from_head ops j n (c1\<lparr>m_parser := p1, m_cursor_visitor := ev\<rparr>)"
  using assms by (simp add: pull_rest_def contract_cache)

lemma cache_parser_commute:
  "c\<lparr>m_cursor_visitor := x, m_parser := p\<rparr> = c\<lparr>m_parser := p, m_cursor_visitor := x\<rparr>"
  by simp

text \<open>A stopped, not done cursor: the pull loop reads the event and calls next.\<close>

lemma pull_head_stopped:
  assumes "p_stopped ops p1" "\<not> p_done ops p1"
  shows "pull_from_head ops (Suc j) (Suc n) (c1\<lparr>m_parser := p1, m_cursor_visitor := ev\<rparr>) =
           map_option (\<lambda>(evs, r). (ev # evs, r))
             (pull_from_head ops (Suc n) n (c1\<lparr>m_parser := p_restart ops p1, m_cursor_visitor := ev\<rparr>))"
proof -
  have "pull_from_head ops (Suc j) (Suc n) (c1\<lparr>m_parser := p1, m_cursor_visitor := ev\<rparr>)
      = pull_events ops (Suc n) (c1\<lparr>m_parser := p1, m_cursor_visitor := ev\<rparr>)"
    using assms(1) by (simp add: pull_from_head_def del: pull_events.simps)
  then show ?thesis
    using assms(2)
    by (simp add: pull_events_Suc cursor_done_def current_def cache_parser_commute del: pull_events.simps)
qed

text \<open>One iteration from a running head whose input is not exhausted.\<close>

lemma refill_block_not_exhausted:
  "\<not> p_source_exhausted ops (m_parser c) \<Longrightarrow> refill_block ops c ec = (c, ec)"
  "\<not> p_source_exhausted ops (m_parser c) \<Longrightarrow> \<not> refill_failed ops c ec"
  by (simp_all add: refill_block_def refill_failed_def)


lemma contract_update:
  "tokenizer_resumable ops \<Longrightarrow> p_stopped ops (p_update ops chunk p) = p_stopped ops p"
  by (simp add: tokenizer_resumable_def)

lemma refill_block_stopped:
  assumes "tokenizer_resumable ops"
  shows "p_stopped ops (m_parser (fst (refill_block ops c ec))) = p_stopped ops (m_parser c)"
  using contract_update[OF assms]
  by (simp add: refill_block_def read_buffer_def Let_def split: prod.splits option.splits)

lemma pull_of_push_run:
  assumes contract: "tokenizer_resumable ops"
    and loop0: "\<forall>c log x cf ecf log'. head_ok ops c \<longrightarrow>
        read_next_visitor_loop ops m recorder c None log = Some (cf, ecf, log') \<longrightarrow>
        (\<exists>N evs cf'. (\<forall>k n. N \<le> k \<longrightarrow> N \<le> n \<longrightarrow>
                        pull_from_head ops k n (c\<lparr>m_cursor_visitor := x\<rparr>) = Some (evs, cf', ecf))
                     \<and> log' = log @ evs)"
  shows "\<not> p_stopped ops (m_parser c1) \<Longrightarrow> p_parse_some ops (m_parser c1) = t \<Longrightarrow>
         push_rest ops m c1 log t = Some (cf, ecf, log') \<Longrightarrow>
         \<exists>N evs cf'. (\<forall>k n. N \<le> k \<longrightarrow> N \<le> n \<longrightarrow> pull_rest ops k n c1 x t = Some (evs, cf', ecf))
                      \<and> log' = log @ evs"
proof (induction t arbitrary: c1 log x)
  case (Ret p' e)
  note loop = loop0[rule_format]
  show ?case
  proof (cases e)
    case (Some err)
    with Ret.prems(3) have "ecf = e" "log' = log"
      by (simp_all add: push_rest_Ret)
    with Some have "(\<forall>k n. 0 \<le> k \<longrightarrow> 0 \<le> n \<longrightarrow>
        pull_rest ops k n c1 x (Ret p' e) = Some ([], c1\<lparr>m_parser := p', m_cursor_visitor := x\<rparr>, ecf))
        \<and> log' = log @ []"
      by (simp add: pull_rest_Ret)
    then show ?thesis by blast
  next
    case None
    with Ret.prems(3) have run: "read_next_visitor_loop ops m recorder (c1\<lparr>m_parser := p'\<rparr>) None log
        = Some (cf, ecf, log')"
      by (simp add: push_rest_Ret)
    have "head_ok ops (c1\<lparr>m_parser := p'\<rparr>)"
      using contract_Ret[OF contract Ret.prems(1)] Ret.prems(2) None by (simp add: head_ok_def)
    from loop[OF this run, of x] obtain N evs cf' where
      "\<forall>k n. N \<le> k \<longrightarrow> N \<le> n \<longrightarrow>
         pull_from_head ops k n (c1\<lparr>m_parser := p', m_cursor_visitor := x\<rparr>) = Some (evs, cf', ecf)"
      "log' = log @ evs"
      by auto
    with None have "(\<forall>k n. N \<le> k \<longrightarrow> N \<le> n \<longrightarrow> pull_rest ops k n c1 x (Ret p' e) = Some (evs, cf', ecf))
        \<and> log' = log @ evs"
      by (simp add: pull_rest_Ret)
    then show ?thesis by blast
  qed
next
  case (Emit ev kk)
  note loop = loop0[rule_format]
  from contract_Emit[OF contract Emit.prems(1,2)] obtain p1 where
    p1: "kk False = Ret p1 None" "p_stopped ops p1" "\<not> p_done ops p1"
      "kk True = (if p_source_exhausted ops p1 then Ret (p_restart ops p1) None
                  else p_parse_some ops (p_restart ops p1))"
    by blast
  from Emit.prems(3) have push: "push_rest ops m c1 (log @ [ev]) (kk True) = Some (cf, ecf, log')"
    by (simp add: push_rest_Emit)
  have pull: "pull_rest ops (Suc j) (Suc n) c1 x (Emit ev kk) =
      map_option (\<lambda>(evs, r). (ev # evs, r))
        (pull_from_head ops (Suc n) n (c1\<lparr>m_parser := p_restart ops p1, m_cursor_visitor := ev\<rparr>))" for j n
    by (simp only: pull_rest_Emit[where k = kk, OF contract p1(1)] pull_head_stopped[OF p1(2,3)])
  have "\<exists>N evs' cf'. (\<forall>n. N \<le> n \<longrightarrow>
          pull_from_head ops (Suc n) n (c1\<lparr>m_parser := p_restart ops p1, m_cursor_visitor := ev\<rparr>)
            = Some (evs', cf', ecf))
        \<and> log' = (log @ [ev]) @ evs'"
  proof (cases "p_source_exhausted ops p1")
    case True
    with push p1(4) have run: "read_next_visitor_loop ops m recorder (c1\<lparr>m_parser := p_restart ops p1\<rparr>) None
        (log @ [ev]) = Some (cf, ecf, log')"
      by (simp add: push_rest_Ret)
    have "head_ok ops (c1\<lparr>m_parser := p_restart ops p1\<rparr>)"
      using contract_restart(1)[OF contract] by (simp add: head_ok_def)
    from loop[OF this run, of ev] obtain N evs' cf' where
      "\<forall>k n. N \<le> k \<longrightarrow> N \<le> n \<longrightarrow>
         pull_from_head ops k n (c1\<lparr>m_parser := p_restart ops p1, m_cursor_visitor := ev\<rparr>) = Some (evs', cf', ecf)"
      "log' = (log @ [ev]) @ evs'"
      by auto
    then have "(\<forall>n. N \<le> n \<longrightarrow>
          pull_from_head ops (Suc n) n (c1\<lparr>m_parser := p_restart ops p1, m_cursor_visitor := ev\<rparr>)
            = Some (evs', cf', ecf))
        \<and> log' = (log @ [ev]) @ evs'"
      by simp
    then show ?thesis by blast
  next
    case False
    let ?c = "c1\<lparr>m_parser := p_restart ops p1\<rparr>"
    have ns: "\<not> p_stopped ops (m_parser ?c)"
      using contract_restart(1)[OF contract] by simp
    have ne: "\<not> p_source_exhausted ops (m_parser ?c)"
      using contract_restart(2)[OF contract] False by simp
    have t: "p_parse_some ops (m_parser ?c) = kk True"
      using p1(4) False by simp
    have pr: "push_rest ops m ?c (log @ [ev]) (kk True) = Some (cf, ecf, log')"
      using push by (simp add: push_rest_parser)
    have "kk True \<in> range kk" by simp
    from Emit.IH[OF this ns t pr, of ev] obtain N evs' cf' where
      N: "\<forall>k n. N \<le> k \<longrightarrow> N \<le> n \<longrightarrow> pull_rest ops k n ?c ev (kk True) = Some (evs', cf', ecf)"
      "log' = (log @ [ev]) @ evs'"
      by auto
    have "pull_from_head ops (Suc n) n (?c\<lparr>m_cursor_visitor := ev\<rparr>) = pull_rest ops n n ?c ev (kk True)" for n
      using ns ne t by (simp add: pull_head_Suc refill_block_not_exhausted del: pull_events.simps)
    with N have "(\<forall>n. N \<le> n \<longrightarrow>
          pull_from_head ops (Suc n) n (c1\<lparr>m_parser := p_restart ops p1, m_cursor_visitor := ev\<rparr>)
            = Some (evs', cf', ecf))
        \<and> log' = (log @ [ev]) @ evs'"
      by simp
    then show ?thesis by blast
  qed
  then obtain N evs' cf' where
    N: "\<forall>n. N \<le> n \<longrightarrow>
          pull_from_head ops (Suc n) n (c1\<lparr>m_parser := p_restart ops p1, m_cursor_visitor := ev\<rparr>)
            = Some (evs', cf', ecf)"
    and l: "log' = (log @ [ev]) @ evs'"
    by blast
  have "pull_rest ops k n c1 x (Emit ev kk) = Some (ev # evs', cf', ecf)" if "Suc N \<le> k" "Suc N \<le> n" for k n
  proof -
    from that obtain j n' where "k = Suc j" "n = Suc n'" "N \<le> n'"
      by (metis Suc_le_D Suc_le_mono)
    with N pull[of j n'] show ?thesis by simp
  qed
  with l have "(\<forall>k n. Suc N \<le> k \<longrightarrow> Suc N \<le> n \<longrightarrow> pull_rest ops k n c1 x (Emit ev kk) = Some (ev # evs', cf', ecf))
      \<and> log' = log @ (ev # evs')"
    by simp
  then show ?case by blast
qed


lemma pull_of_push:
  assumes contract: "tokenizer_resumable ops"
  shows "head_ok ops c \<Longrightarrow>
        read_next_visitor_loop ops m recorder c None log = Some (cf, ecf, log') \<Longrightarrow>
        \<exists>N evs cf'. (\<forall>k n. N \<le> k \<longrightarrow> N \<le> n \<longrightarrow>
                        pull_from_head ops k n (c\<lparr>m_cursor_visitor := x\<rparr>) = Some (evs, cf', ecf))
                     \<and> log' = log @ evs"
proof (induction m arbitrary: c log x cf ecf log')
  case 0
  then show ?case by simp
next
  case (Suc m)
  let ?rb = "refill_block ops c None"
  consider (stop) "p_stopped ops (m_parser c)"
    | (fail) "\<not> p_stopped ops (m_parser c)" "refill_failed ops c None"
    | (go) "\<not> p_stopped ops (m_parser c)" "\<not> refill_failed ops c None"
    by blast
  then show ?case
  proof cases
    case stop
    with Suc.prems(2) have r: "ecf = None" "log' = log"
      by (simp_all add: push_head_Suc del: read_next_visitor_loop.simps)
    from stop Suc.prems(1) have d: "cursor_done ops (c\<lparr>m_cursor_visitor := x\<rparr>)"
      by (simp add: head_ok_def cursor_done_def)
    have "pull_from_head ops k n (c\<lparr>m_cursor_visitor := x\<rparr>) = Some ([], c\<lparr>m_cursor_visitor := x\<rparr>, None)"
      if "Suc 0 \<le> k" "Suc 0 \<le> n" for k n
    proof -
      from that obtain j n' where "k = Suc j" "n = Suc n'"
        by (metis Suc_le_D)
      with stop d show ?thesis
        by (simp add: pull_head_Suc pull_events_Suc del: pull_events.simps)
    qed
    with r have "(\<forall>k n. Suc 0 \<le> k \<longrightarrow> Suc 0 \<le> n \<longrightarrow>
        pull_from_head ops k n (c\<lparr>m_cursor_visitor := x\<rparr>) = Some ([], c\<lparr>m_cursor_visitor := x\<rparr>, ecf))
        \<and> log' = log @ []"
      by simp
    then show ?thesis by blast
  next
    case fail
    with Suc.prems(2) have r: "ecf = snd ?rb" "log' = log"
      by (simp_all add: push_head_Suc del: read_next_visitor_loop.simps)
    have "pull_from_head ops k n (c\<lparr>m_cursor_visitor := x\<rparr>)
        = Some ([], (fst ?rb)\<lparr>m_cursor_visitor := x\<rparr>, snd ?rb)"
      if "Suc 0 \<le> k" for k n
    proof -
      from that obtain j where "k = Suc j"
        by (metis Suc_le_D)
      with fail show ?thesis
        by (simp add: pull_head_Suc del: pull_events.simps)
    qed
    with r have "(\<forall>k n. Suc 0 \<le> k \<longrightarrow> Suc 0 \<le> n \<longrightarrow>
        pull_from_head ops k n (c\<lparr>m_cursor_visitor := x\<rparr>) = Some ([], (fst ?rb)\<lparr>m_cursor_visitor := x\<rparr>, ecf))
        \<and> log' = log @ []"
      by simp
    then show ?thesis by blast
  next
    case go
    let ?c1 = "fst ?rb"
    from go Suc.prems(2) have push: "push_rest ops m ?c1 log (p_parse_some ops (m_parser ?c1)) = Some (cf, ecf, log')"
      by (simp add: push_head_Suc del: read_next_visitor_loop.simps)
    have ns: "\<not> p_stopped ops (m_parser ?c1)"
      using go(1) by (simp add: refill_block_stopped[OF contract])
    have ih: "\<forall>c log x cf ecf log'. head_ok ops c \<longrightarrow>
        read_next_visitor_loop ops m recorder c None log = Some (cf, ecf, log') \<longrightarrow>
        (\<exists>N evs cf'. (\<forall>k n. N \<le> k \<longrightarrow> N \<le> n \<longrightarrow>
                        pull_from_head ops k n (c\<lparr>m_cursor_visitor := x\<rparr>) = Some (evs, cf', ecf))
                     \<and> log' = log @ evs)"
      using Suc.IH by blast
    from pull_of_push_run[where ops = ops and m = m and x = x, OF contract ih ns refl push]
    obtain N evs cf' where
      N: "\<forall>k n. N \<le> k \<longrightarrow> N \<le> n \<longrightarrow>
            pull_rest ops k n ?c1 x (p_parse_some ops (m_parser ?c1)) = Some (evs, cf', ecf)"
      and l: "log' = log @ evs"
      by blast
    have "pull_from_head ops k n (c\<lparr>m_cursor_visitor := x\<rparr>) = Some (evs, cf', ecf)"
      if "Suc N \<le> k" "Suc N \<le> n" for k n
    proof -
      from that obtain j where "k = Suc j" "N \<le> j" "N \<le> n"
        by (metis Suc_le_D Suc_le_mono Suc_leD)
      with go N show ?thesis
        by (simp add: pull_head_Suc del: pull_events.simps)
    qed
    with l show ?thesis by blast
  qed
qed


lemma push_of_pull:
  assumes contract: "tokenizer_resumable ops"
  shows "head_ok ops c \<Longrightarrow>
        pull_from_head ops k n (c\<lparr>m_cursor_visitor := x\<rparr>) = Some (evs, cf, ecf) \<Longrightarrow>
        \<exists>M cf'. \<forall>m. M \<le> m \<longrightarrow>
          read_next_visitor_loop ops m recorder c None log = Some (cf', ecf, log @ evs)"
proof (induction n arbitrary: k c x log evs cf ecf rule: less_induct)
  case (less n)
  note outer = less.IH
  show ?case
    using less.prems
  proof (induction k arbitrary: c x log evs cf ecf)
    case 0
    then show ?case by (simp add: pull_head_0)
  next
    case (Suc k)
    let ?rb = "refill_block ops c None"
    let ?c1 = "fst ?rb"
    let ?t = "p_parse_some ops (m_parser ?c1)"
    consider (stop) "p_stopped ops (m_parser c)"
      | (fail) "\<not> p_stopped ops (m_parser c)" "refill_failed ops c None"
      | (go) "\<not> p_stopped ops (m_parser c)" "\<not> refill_failed ops c None"
      by blast
    then show ?case
    proof cases
      case stop
      with Suc.prems(2) have pe: "pull_events ops n (c\<lparr>m_cursor_visitor := x\<rparr>) = Some (evs, cf, ecf)"
        by (simp add: pull_head_Suc del: pull_events.simps)
      from stop Suc.prems(1) have d: "cursor_done ops (c\<lparr>m_cursor_visitor := x\<rparr>)"
        by (simp add: head_ok_def cursor_done_def)
      from pe d have "evs = [] \<and> ecf = None"
        by (cases n) (simp_all add: pull_events_Suc del: pull_events.simps(2))
      then have r: "evs = []" "ecf = None"
        by simp_all
      have "read_next_visitor_loop ops m recorder c None log = Some (c, ecf, log @ evs)" if "Suc 0 \<le> m" for m
      proof -
        from that obtain m' where "m = Suc m'" by (metis Suc_le_D)
        with stop r show ?thesis by (simp add: push_head_Suc del: read_next_visitor_loop.simps)
      qed
      then show ?thesis by blast
    next
      case fail
      with Suc.prems(2) have r: "evs = []" "ecf = snd ?rb"
        by (simp_all add: pull_head_Suc del: pull_events.simps)
      have "read_next_visitor_loop ops m recorder c None log = Some (?c1, ecf, log @ evs)" if "Suc 0 \<le> m" for m
      proof -
        from that obtain m' where "m = Suc m'" by (metis Suc_le_D)
        with fail r show ?thesis by (simp add: push_head_Suc del: read_next_visitor_loop.simps)
      qed
      then show ?thesis by blast
    next
      case go
      from go Suc.prems(2) have pull: "pull_rest ops k n ?c1 x ?t = Some (evs, cf, ecf)"
        by (simp add: pull_head_Suc del: pull_events.simps)
      have ns: "\<not> p_stopped ops (m_parser ?c1)"
        using go(1) by (simp add: refill_block_stopped[OF contract])
      have head: "read_next_visitor_loop ops (Suc m) recorder c None log = push_rest ops m ?c1 log ?t" for m
        using go by (simp add: push_head_Suc del: read_next_visitor_loop.simps)
      have "\<exists>M cf'. \<forall>m. M \<le> m \<longrightarrow> push_rest ops m ?c1 log ?t = Some (cf', ecf, log @ evs)"
      proof (cases ?t)
        case (Ret p' e)
        show ?thesis
        proof (cases e)
          case (Some err)
          with pull Ret have "evs = []" "ecf = e"
            by (simp_all add: pull_rest_Ret)
          with Ret Some have "\<forall>m. 0 \<le> m \<longrightarrow> push_rest ops m ?c1 log ?t = Some (?c1\<lparr>m_parser := p'\<rparr>, ecf, log @ evs)"
            by (simp add: push_rest_Ret)
          then show ?thesis by blast
        next
          case None
          with pull Ret have ph: "pull_from_head ops k n (?c1\<lparr>m_parser := p', m_cursor_visitor := x\<rparr>)
              = Some (evs, cf, ecf)"
            by (simp add: pull_rest_Ret)
          have hk: "head_ok ops (?c1\<lparr>m_parser := p'\<rparr>)"
            using contract_Ret[OF contract ns] Ret None by (simp add: head_ok_def)
          from Suc.IH[OF hk, of x evs cf ecf log] ph obtain M cf' where
            "\<forall>m. M \<le> m \<longrightarrow> read_next_visitor_loop ops m recorder (?c1\<lparr>m_parser := p'\<rparr>) None log
                = Some (cf', ecf, log @ evs)"
            by auto
          with Ret None have "\<forall>m. M \<le> m \<longrightarrow> push_rest ops m ?c1 log ?t = Some (cf', ecf, log @ evs)"
            by (simp add: push_rest_Ret)
          then show ?thesis by blast
        qed
      next
        case (Emit ev kk)
        from contract_Emit[OF contract ns Emit] obtain p1 where
          p1: "kk False = Ret p1 None" "p_stopped ops p1" "\<not> p_done ops p1"
            "kk True = (if p_source_exhausted ops p1 then Ret (p_restart ops p1) None
                        else p_parse_some ops (p_restart ops p1))"
          by blast
        let ?c2 = "?c1\<lparr>m_parser := p_restart ops p1\<rparr>"
        from pull Emit have ph: "pull_from_head ops k n (?c1\<lparr>m_parser := p1, m_cursor_visitor := ev\<rparr>)
            = Some (evs, cf, ecf)"
          by (simp add: pull_rest_Emit[where k = kk, OF contract p1(1)])
        from ph obtain j where kj: "k = Suc j"
          by (cases k) (simp_all add: pull_head_0)
        from ph kj p1(2) have "pull_events ops n (?c1\<lparr>m_parser := p1, m_cursor_visitor := ev\<rparr>)
            = Some (evs, cf, ecf)"
          by (simp add: pull_from_head_def del: pull_events.simps)
        then obtain n' where nn: "n = Suc n'"
          by (cases n) simp_all
        from ph kj nn have "map_option (\<lambda>(evs, r). (ev # evs, r))
             (pull_from_head ops (Suc n') n' (?c2\<lparr>m_cursor_visitor := ev\<rparr>)) = Some (evs, cf, ecf)"
          by (simp add: pull_head_stopped[OF p1(2,3)])
        then obtain evs' where e': "evs = ev # evs'"
          and ph': "pull_from_head ops (Suc n') n' (?c2\<lparr>m_cursor_visitor := ev\<rparr>) = Some (evs', cf, ecf)"
          by auto
        have hk: "head_ok ops ?c2"
          using contract_restart(1)[OF contract] by (simp add: head_ok_def)
        from outer[of n' ?c2 "Suc n'" ev evs' cf ecf "log @ [ev]", OF _ hk ph'] nn obtain M cf' where
          M: "\<forall>m. M \<le> m \<longrightarrow> read_next_visitor_loop ops m recorder ?c2 None (log @ [ev])
                = Some (cf', ecf, (log @ [ev]) @ evs')"
          by auto
        have "push_rest ops m ?c1 log ?t = Some (cf', ecf, log @ evs)" if "M \<le> m" for m
        proof (cases "p_source_exhausted ops p1")
          case True
          with Emit p1(4) have "push_rest ops m ?c1 log ?t
              = read_next_visitor_loop ops m recorder ?c2 None (log @ [ev])"
            by (simp add: push_rest_Emit push_rest_Ret)
          with M that e' show ?thesis by (simp del: read_next_visitor_loop.simps)
        next
          case False
          have ns2: "\<not> p_stopped ops (m_parser ?c2)"
            using contract_restart(1)[OF contract] by simp
          have ne2: "\<not> p_source_exhausted ops (m_parser ?c2)"
            using contract_restart(2)[OF contract] False by simp
          from Emit p1(4) False have "push_rest ops m ?c1 log ?t
              = push_rest ops m ?c2 (log @ [ev]) (p_parse_some ops (m_parser ?c2))"
            by (simp add: push_rest_Emit push_rest_parser)
          also have "\<dots> = read_next_visitor_loop ops (Suc m) recorder ?c2 None (log @ [ev])"
            using ns2 ne2
            by (simp add: push_head_Suc refill_block_not_exhausted del: read_next_visitor_loop.simps)
          finally have eq: "push_rest ops m ?c1 log ?t
              = read_next_visitor_loop ops (Suc m) recorder ?c2 None (log @ [ev])" .
          from that have "M \<le> Suc m" by simp
          with M have "read_next_visitor_loop ops (Suc m) recorder ?c2 None (log @ [ev])
              = Some (cf', ecf, (log @ [ev]) @ evs')"
            by blast
          with eq e' show ?thesis
            by (simp del: read_next_visitor_loop.simps)
        qed
        then show ?thesis by blast
      qed
      then obtain M cf' where M: "\<forall>m. M \<le> m \<longrightarrow> push_rest ops m ?c1 log ?t = Some (cf', ecf, log @ evs)"
        by blast
      have "read_next_visitor_loop ops m recorder c None log = Some (cf', ecf, log @ evs)" if "Suc M \<le> m" for m
      proof -
        from that obtain m' where "m = Suc m'" "M \<le> m'" by (metis Suc_le_D Suc_le_mono)
        with M head show ?thesis by (simp del: read_next_visitor_loop.simps)
      qed
      then show ?thesis by blast
    qed
  qed
qed


subsection \<open>Chunk lengths over an incremental tokenizer\<close>

lemma inc_pending_update: "tokenizer_incremental ops pending \<Longrightarrow> pending (p_update ops xs p) = xs"
  by (simp add: tokenizer_incremental_def)

lemma inc_exhausted: "tokenizer_incremental ops pending \<Longrightarrow> p_source_exhausted ops p = (pending p = [])"
  by (simp add: tokenizer_incremental_def)

lemma inc_stopped_update:
  "tokenizer_incremental ops pending \<Longrightarrow> p_stopped ops (p_update ops xs p) = p_stopped ops p"
  by (simp add: tokenizer_incremental_def)

lemma inc_update_update:
  "tokenizer_incremental ops pending \<Longrightarrow> p_update ops xs (p_update ops ys p) = p_update ops xs p"
  by (simp add: tokenizer_incremental_def)

lemma inc_update_pending:
  "tokenizer_incremental ops pending \<Longrightarrow> p_update ops (pending p) p = p"
  by (simp add: tokenizer_incremental_def)

lemma inc_chunk_law:
  "tokenizer_incremental ops pending \<Longrightarrow> \<not> p_stopped ops p \<Longrightarrow> xs \<noteq> [] \<Longrightarrow> ys \<noteq> [] \<Longrightarrow>
     p_parse_some ops (p_update ops (xs @ ys) p) =
       extend_run ops pending ys (p_parse_some ops (p_update ops xs p))"
  unfolding tokenizer_incremental_def by blast

lemma deliver_extend_run:
  "deliver (extend_run ops pending ys t) v s =
     (case deliver t v s of
        (p', e, s') \<Rightarrow>
          if e = None \<and> \<not> p_stopped ops p' \<and> pending p' = []
          then deliver (p_parse_some ops (p_update ops ys p')) v s'
          else (p_update ops (pending p' @ ys) p', e, s'))"
  by (induction t arbitrary: s) (auto split: prod.splits)

lemma push_rest_extend_run:
  "push_rest ops m c1 log (extend_run ops pending ys t) =
     (case deliver t recorder log of
        (p', e, l1) \<Rightarrow>
          if e = None \<and> \<not> p_stopped ops p' \<and> pending p' = []
          then push_rest ops m c1 l1 (p_parse_some ops (p_update ops ys p'))
          else if e \<noteq> None then Some (c1\<lparr>m_parser := p_update ops (pending p' @ ys) p'\<rparr>, e, l1)
          else read_next_visitor_loop ops m recorder (c1\<lparr>m_parser := p_update ops (pending p' @ ys) p'\<rparr>) None l1)"
  by (auto simp add: push_rest_def deliver_extend_run split: prod.splits)

text \<open>The refill at the head of an iteration, for a cursor that reads from a list.\<close>

lemma refill_block_list:
  assumes inc: "tokenizer_incremental ops pending" and src: "reads_from_list ops" and cr: "chunk_ready c"
  shows "\<not> refill_failed ops c None"
    and "snd (refill_block ops c None) = None"
    and "chunk_ready (fst (refill_block ops c None))"
    and "flatten ops pending (fst (refill_block ops c None)) = flatten ops pending c"
    and "pending (m_parser (fst (refill_block ops c None))) = [] \<longrightarrow>
           fst (m_source (fst (refill_block ops c None))) = []"
    and "p_stopped ops (m_parser (fst (refill_block ops c None))) = p_stopped ops (m_parser c)"
    and "m_cursor_visitor (fst (refill_block ops c None)) = m_cursor_visitor c"
proof -
  obtain d f where s: "m_source c = (d, f)" by (cases "m_source c") auto
  have rd: "src_read ops = list_read" and ef: "src_eof ops = snd"
    using src by (simp_all add: reads_from_list_def)
  have nb: "\<not> m_begin c" and pos: "0 < m_buffer_length c" and fl: "f \<longrightarrow> d = []"
    using cr s by (simp_all add: chunk_ready_def)
  note inc_simps = inc_pending_update[OF inc] inc_exhausted[OF inc] inc_stopped_update[OF inc]
    inc_update_update[OF inc]
  show "\<not> refill_failed ops c None"
    using nb by (auto simp: refill_failed_def read_buffer_def Let_def split: prod.splits)
  show "snd (refill_block ops c None) = None"
    using nb by (auto simp: refill_block_def read_buffer_def Let_def split: prod.splits)
  show "chunk_ready (fst (refill_block ops c None))"
    using nb pos fl s
    by (auto simp: refill_block_def read_buffer_def Let_def chunk_ready_def rd ef list_read_def
        split: prod.splits if_splits)
  show "flatten ops pending (fst (refill_block ops c None)) = flatten ops pending c"
    using nb pos fl s
    by (auto simp: refill_block_def read_buffer_def Let_def flatten_def rd ef list_read_def inc_simps
        split: prod.splits if_splits)
  show "pending (m_parser (fst (refill_block ops c None))) = [] \<longrightarrow>
           fst (m_source (fst (refill_block ops c None))) = []"
    using nb pos fl s
    by (auto simp: refill_block_def read_buffer_def Let_def rd ef list_read_def inc_simps
        split: prod.splits if_splits)
  show "p_stopped ops (m_parser (fst (refill_block ops c None))) = p_stopped ops (m_parser c)"
    using nb
    by (auto simp: refill_block_def read_buffer_def Let_def inc_simps split: prod.splits if_splits)
  show "m_cursor_visitor (fst (refill_block ops c None)) = m_cursor_visitor c"
    by (auto simp: refill_block_def read_buffer_def Let_def split: prod.splits if_splits option.splits)
qed


lemma flatten_parser:
  "flatten ops pending (c\<lparr>m_parser := p\<rparr>) =
     (flatten ops pending c)\<lparr>m_parser := p_update ops (pending p @ fst (m_source c)) p\<rparr>"
  by (simp add: flatten_def)

lemma flatten_pending:
  "tokenizer_incremental ops pending \<Longrightarrow>
     pending (m_parser (flatten ops pending c)) = pending (m_parser c) @ fst (m_source c)"
  by (simp add: flatten_def inc_pending_update)

text \<open>One iteration of the push loop, for a cursor and for its flattened form.\<close>

lemma push_iteration:
  assumes inc: "tokenizer_incremental ops pending" and src: "reads_from_list ops"
    and cr: "chunk_ready c" and ns: "\<not> p_stopped ops (m_parser c)"
    and d: "deliver (p_parse_some ops (m_parser (fst (refill_block ops c None)))) recorder log = (p', e, l1)"
  shows "read_next_visitor_loop ops (Suc m) recorder c None log =
           (if e \<noteq> None then Some ((fst (refill_block ops c None))\<lparr>m_parser := p'\<rparr>, e, l1)
            else read_next_visitor_loop ops m recorder ((fst (refill_block ops c None))\<lparr>m_parser := p'\<rparr>) None l1)"
    and "chunk_ready ((fst (refill_block ops c None))\<lparr>m_parser := p'\<rparr>)"
    and "\<exists>cf. read_next_visitor_loop ops (Suc m) recorder (flatten ops pending c) None log =
           (if e \<noteq> None then Some (cf, e, l1)
            else if pending (m_parser (fst (refill_block ops c None))) \<noteq> []
                    \<and> fst (m_source (fst (refill_block ops c None))) \<noteq> []
                    \<and> \<not> p_stopped ops p' \<and> pending p' = []
            then read_next_visitor_loop ops (Suc m) recorder
                   (flatten ops pending ((fst (refill_block ops c None))\<lparr>m_parser := p'\<rparr>)) None l1
            else read_next_visitor_loop ops m recorder
                   (flatten ops pending ((fst (refill_block ops c None))\<lparr>m_parser := p'\<rparr>)) None l1)"
    and "pending (m_parser (fst (refill_block ops c None))) \<noteq> [] \<and> pending p' = [] \<longrightarrow>
           length (pending (m_parser ((fst (refill_block ops c None))\<lparr>m_parser := p'\<rparr>))
                   @ fst (m_source ((fst (refill_block ops c None))\<lparr>m_parser := p'\<rparr>)))
           < length (pending (m_parser c) @ fst (m_source c))"
proof -
  let ?c1 = "fst (refill_block ops c None)"
  let ?p1 = "m_parser ?c1"
  let ?r1 = "pending ?p1"
  let ?d1 = "fst (m_source ?c1)"
  let ?t = "p_parse_some ops ?p1"
  let ?F = "flatten ops pending c"
  note rb = refill_block_list[OF inc src cr]
  have ns1: "\<not> p_stopped ops ?p1" using ns rb(6) by simp
  show one: "read_next_visitor_loop ops (Suc m) recorder c None log =
           (if e \<noteq> None then Some (?c1\<lparr>m_parser := p'\<rparr>, e, l1)
            else read_next_visitor_loop ops m recorder (?c1\<lparr>m_parser := p'\<rparr>) None l1)"
    using ns rb(1) d by (simp add: push_head_Suc push_rest_def del: read_next_visitor_loop.simps)
  show cr2: "chunk_ready (?c1\<lparr>m_parser := p'\<rparr>)"
    using rb(3) by (simp add: chunk_ready_def)
  have F1: "flatten ops pending ?c1 = ?F" by (rule rb(4))
  have Fp: "m_parser ?F = p_update ops (?r1 @ ?d1) ?p1"
    unfolding F1[symmetric] by (simp add: flatten_def)
  show "\<exists>cf. read_next_visitor_loop ops (Suc m) recorder ?F None log =
           (if e \<noteq> None then Some (cf, e, l1)
            else if ?r1 \<noteq> [] \<and> ?d1 \<noteq> [] \<and> \<not> p_stopped ops p' \<and> pending p' = []
            then read_next_visitor_loop ops (Suc m) recorder
                   (flatten ops pending (?c1\<lparr>m_parser := p'\<rparr>)) None l1
            else read_next_visitor_loop ops m recorder
                   (flatten ops pending (?c1\<lparr>m_parser := p'\<rparr>)) None l1)"
  proof -
    have nsF: "\<not> p_stopped ops (m_parser ?F)"
      using Fp ns1 by (simp add: inc_stopped_update[OF inc])
    have srcF: "src_eof ops (m_source ?F)"
      using src by (simp add: reads_from_list_def flatten_def)
    have rbF: "refill_block ops ?F None = (?F, None)"
      using srcF by (simp add: refill_block_def) (simp add: flatten_def)
    have nfF: "\<not> refill_failed ops ?F None"
      using srcF by (simp add: refill_failed_def)
    have headF: "read_next_visitor_loop ops (Suc m) recorder ?F None log =
        push_rest ops m ?F log (p_parse_some ops (m_parser ?F))"
      using nsF nfF rbF by (simp add: push_head_Suc del: read_next_visitor_loop.simps)
    have own: "p_update ops ?r1 ?p1 = ?p1"
      by (rule inc_update_pending[OF inc])
    have F2: "flatten ops pending (?c1\<lparr>m_parser := p'\<rparr>) =
        ?F\<lparr>m_parser := p_update ops (pending p' @ ?d1) p'\<rparr>"
      by (simp add: flatten_parser F1)
    show ?thesis
    proof (cases "?r1 \<noteq> [] \<and> ?d1 \<noteq> []")
      case True
      then have tree: "p_parse_some ops (m_parser ?F) = extend_run ops pending ?d1 ?t"
        using inc_chunk_law[OF inc ns1, of ?r1 ?d1] Fp own by simp
      show ?thesis
      proof (cases "e = None \<and> \<not> p_stopped ops p' \<and> pending p' = []")
        case absorbed: True
        let ?G = "flatten ops pending (?c1\<lparr>m_parser := p'\<rparr>)"
        have pG: "m_parser ?G = p_update ops ?d1 p'"
          using absorbed by (simp add: F2)
        have nsG: "\<not> p_stopped ops (m_parser ?G)"
          using pG absorbed by (simp add: inc_stopped_update[OF inc])
        have neG: "\<not> p_source_exhausted ops (m_parser ?G)"
          using pG True by (simp add: inc_exhausted[OF inc] inc_pending_update[OF inc])
        have "read_next_visitor_loop ops (Suc m) recorder ?G None l1 =
            push_rest ops m ?G l1 (p_parse_some ops (p_update ops ?d1 p'))"
          using nsG neG pG
          by (simp add: push_head_Suc refill_block_not_exhausted del: read_next_visitor_loop.simps)
        also have "\<dots> = push_rest ops m ?F l1 (p_parse_some ops (p_update ops ?d1 p'))"
          by (simp add: F2 push_rest_parser)
        finally have "read_next_visitor_loop ops (Suc m) recorder ?F None log =
            read_next_visitor_loop ops (Suc m) recorder ?G None l1"
          using headF tree d absorbed by (simp add: push_rest_extend_run del: read_next_visitor_loop.simps)
        with True absorbed show ?thesis
          by (simp del: read_next_visitor_loop.simps)
      next
        case False
        with headF tree d F2 show ?thesis
          by (auto simp add: push_rest_extend_run simp del: read_next_visitor_loop.simps)
      qed
    next
      case False
      then have e0: "?d1 = []"
        using rb(5) by blast
      have tree: "p_parse_some ops (m_parser ?F) = ?t"
        using Fp own e0 by simp
      have "p_update ops (pending p' @ ?d1) p' = p'"
        using e0 by (simp add: inc_update_pending[OF inc])
      with F2 have F3: "flatten ops pending (?c1\<lparr>m_parser := p'\<rparr>) = ?F\<lparr>m_parser := p'\<rparr>"
        by simp
      from headF tree d False F3 show ?thesis
        by (auto simp add: push_rest_def simp del: read_next_visitor_loop.simps)
    qed
  qed
  show "?r1 \<noteq> [] \<and> pending p' = [] \<longrightarrow>
           length (pending (m_parser (?c1\<lparr>m_parser := p'\<rparr>)) @ fst (m_source (?c1\<lparr>m_parser := p'\<rparr>)))
           < length (pending (m_parser c) @ fst (m_source c))"
  proof -
    have "pending (m_parser (flatten ops pending ?c1)) = pending (m_parser ?F)"
      using F1 by simp
    then have "?r1 @ ?d1 = pending (m_parser c) @ fst (m_source c)"
      by (simp add: flatten_pending[OF inc])
    then have "length ?r1 + length ?d1 = length (pending (m_parser c) @ fst (m_source c))"
      by (metis length_append)
    then have eq: "length ?r1 + length ?d1 = length (pending (m_parser c)) + length (fst (m_source c))"
      by simp
    show ?thesis
    proof
      assume a: "?r1 \<noteq> [] \<and> pending p' = []"
      then have "length ?r1 \<noteq> 0" by simp
      with eq have "length ?d1 < length (pending (m_parser c)) + length (fst (m_source c))"
        by linarith
      with a show "length (pending (m_parser (?c1\<lparr>m_parser := p'\<rparr>)) @ fst (m_source (?c1\<lparr>m_parser := p'\<rparr>)))
           < length (pending (m_parser c) @ fst (m_source c))"
        by simp
    qed
  qed
qed


lemma flatten_stopped:
  "tokenizer_incremental ops pending \<Longrightarrow>
     p_stopped ops (m_parser (flatten ops pending c)) = p_stopped ops (m_parser c)"
  by (simp add: flatten_def inc_stopped_update)

lemma flat_of_chunked:
  assumes inc: "tokenizer_incremental ops pending" and src: "reads_from_list ops"
  shows "chunk_ready c \<Longrightarrow> read_next_visitor_loop ops m recorder c None log = Some (cf, ecf, log') \<Longrightarrow>
         \<exists>M. \<forall>m'. M \<le> m' \<longrightarrow>
           (\<exists>cf'. read_next_visitor_loop ops m' recorder (flatten ops pending c) None log = Some (cf', ecf, log'))"
proof (induction m arbitrary: c log)
  case 0
  then show ?case by simp
next
  case (Suc m)
  let ?F = "flatten ops pending c"
  show ?case
  proof (cases "p_stopped ops (m_parser c)")
    case True
    with Suc.prems(2) have r: "ecf = None" "log' = log"
      by (simp_all add: push_head_Suc del: read_next_visitor_loop.simps)
    have "\<exists>cf'. read_next_visitor_loop ops m' recorder ?F None log = Some (cf', ecf, log')" if "Suc 0 \<le> m'" for m'
    proof -
      from that obtain j where "m' = Suc j" by (metis Suc_le_D)
      with True r show ?thesis
        by (simp add: push_head_Suc flatten_stopped[OF inc] del: read_next_visitor_loop.simps)
    qed
    then show ?thesis by blast
  next
    case False
    let ?c1 = "fst (refill_block ops c None)"
    obtain p' e l1 where d: "deliver (p_parse_some ops (m_parser ?c1)) recorder log = (p', e, l1)"
      by (cases "deliver (p_parse_some ops (m_parser ?c1)) recorder log") auto
    let ?c2 = "?c1\<lparr>m_parser := p'\<rparr>"
    note it = push_iteration[OF inc src Suc.prems(1) False d]
    show ?thesis
    proof (cases "e = None")
      case err: False
      with Suc.prems(2) it(1)[of m] have r: "ecf = e" "log' = l1"
        by (simp_all del: read_next_visitor_loop.simps)
      have "\<exists>cf'. read_next_visitor_loop ops m' recorder ?F None log = Some (cf', ecf, log')" if "Suc 0 \<le> m'" for m'
      proof -
        from that obtain j where "m' = Suc j" by (metis Suc_le_D)
        with it(3)[of j] err r show ?thesis
          by (auto simp del: read_next_visitor_loop.simps)
      qed
      then show ?thesis by blast
    next
      case ok: True
      with Suc.prems(2) it(1)[of m] have "read_next_visitor_loop ops m recorder ?c2 None l1 = Some (cf, ecf, log')"
        by (simp del: read_next_visitor_loop.simps)
      from Suc.IH[OF it(2) this] obtain M where
        M: "\<forall>m'. M \<le> m' \<longrightarrow>
          (\<exists>cf'. read_next_visitor_loop ops m' recorder (flatten ops pending ?c2) None l1 = Some (cf', ecf, log'))"
        by blast
      have "\<exists>cf'. read_next_visitor_loop ops m' recorder ?F None log = Some (cf', ecf, log')" if "Suc M \<le> m'" for m'
      proof -
        from that obtain j where j: "m' = Suc j" "M \<le> j" by (metis Suc_le_D Suc_le_mono)
        then have "M \<le> Suc j" by simp
        with M j(2) have
          "\<exists>cf'. read_next_visitor_loop ops (Suc j) recorder (flatten ops pending ?c2) None l1 = Some (cf', ecf, log')"
          "\<exists>cf'. read_next_visitor_loop ops j recorder (flatten ops pending ?c2) None l1 = Some (cf', ecf, log')"
          by blast+
        with it(3)[of j] ok j(1) show ?thesis
          by (auto simp del: read_next_visitor_loop.simps split: if_splits)
      qed
      then show ?thesis by blast
    qed
  qed
qed

lemma chunked_of_flat:
  assumes inc: "tokenizer_incremental ops pending" and src: "reads_from_list ops"
  shows "chunk_ready c \<Longrightarrow>
         read_next_visitor_loop ops M recorder (flatten ops pending c) None log = Some (cf, ecf, log') \<Longrightarrow>
         \<exists>m. \<forall>m'. m \<le> m' \<longrightarrow>
           (\<exists>cf'. read_next_visitor_loop ops m' recorder c None log = Some (cf', ecf, log'))"
proof (induction M arbitrary: c log)
  case 0
  then show ?case by simp
next
  case (Suc M)
  note outer = Suc.IH
  show ?case
    using Suc.prems
  proof (induction n \<equiv> "length (pending (m_parser c) @ fst (m_source c))" arbitrary: c log rule: less_induct)
    case less
    let ?F = "flatten ops pending c"
    show ?case
    proof (cases "p_stopped ops (m_parser c)")
      case True
      with less.prems(2) have r: "ecf = None" "log' = log"
        by (simp_all add: push_head_Suc flatten_stopped[OF inc] del: read_next_visitor_loop.simps)
      have "\<exists>cf'. read_next_visitor_loop ops m' recorder c None log = Some (cf', ecf, log')" if "Suc 0 \<le> m'" for m'
      proof -
        from that obtain j where "m' = Suc j" by (metis Suc_le_D)
        with True r show ?thesis
          by (simp add: push_head_Suc del: read_next_visitor_loop.simps)
      qed
      then show ?thesis by blast
    next
      case False
      let ?c1 = "fst (refill_block ops c None)"
      obtain p' e l1 where d: "deliver (p_parse_some ops (m_parser ?c1)) recorder log = (p', e, l1)"
        by (cases "deliver (p_parse_some ops (m_parser ?c1)) recorder log") auto
      let ?c2 = "?c1\<lparr>m_parser := p'\<rparr>"
      note it = push_iteration[OF inc src less.prems(1) False d]
      from it(3)[of M] obtain cx where flat:
        "read_next_visitor_loop ops (Suc M) recorder ?F None log =
           (if e \<noteq> None then Some (cx, e, l1)
            else if pending (m_parser ?c1) \<noteq> [] \<and> fst (m_source ?c1) \<noteq> []
                    \<and> \<not> p_stopped ops p' \<and> pending p' = []
            then read_next_visitor_loop ops (Suc M) recorder (flatten ops pending ?c2) None l1
            else read_next_visitor_loop ops M recorder (flatten ops pending ?c2) None l1)"
        by blast
      show ?thesis
      proof (cases "e = None")
        case err: False
        with less.prems(2) flat have r: "ecf = e" "log' = l1"
          by (simp_all del: read_next_visitor_loop.simps)
        have "\<exists>cf'. read_next_visitor_loop ops m' recorder c None log = Some (cf', ecf, log')" if "Suc 0 \<le> m'" for m'
        proof -
          from that obtain j where "m' = Suc j" by (metis Suc_le_D)
          with it(1)[of j] err r show ?thesis
            by (simp del: read_next_visitor_loop.simps)
        qed
        then show ?thesis by blast
      next
        case ok: True
        have "\<exists>m. \<forall>m'. m \<le> m' \<longrightarrow>
            (\<exists>cf'. read_next_visitor_loop ops m' recorder ?c2 None l1 = Some (cf', ecf, log'))"
        proof (cases "pending (m_parser ?c1) \<noteq> [] \<and> fst (m_source ?c1) \<noteq> []
                    \<and> \<not> p_stopped ops p' \<and> pending p' = []")
          case True
          with less.prems(2) flat ok have run:
            "read_next_visitor_loop ops (Suc M) recorder (flatten ops pending ?c2) None l1 = Some (cf, ecf, log')"
            by (simp del: read_next_visitor_loop.simps)
          from it(4) True have
            "length (pending (m_parser ?c2) @ fst (m_source ?c2)) < length (pending (m_parser c) @ fst (m_source c))"
            by blast
          from less.hyps[OF this it(2) run] show ?thesis .
        next
          case False
          with less.prems(2) flat ok have run:
            "read_next_visitor_loop ops M recorder (flatten ops pending ?c2) None l1 = Some (cf, ecf, log')"
            by (simp del: read_next_visitor_loop.simps)
          from outer[OF it(2) run] show ?thesis .
        qed
        then obtain m where
          m: "\<forall>m'. m \<le> m' \<longrightarrow> (\<exists>cf'. read_next_visitor_loop ops m' recorder ?c2 None l1 = Some (cf', ecf, log'))"
          by blast
        have "\<exists>cf'. read_next_visitor_loop ops m' recorder c None log = Some (cf', ecf, log')" if "Suc m \<le> m'" for m'
        proof -
          from that obtain j where j: "m' = Suc j" "m \<le> j" by (metis Suc_le_D Suc_le_mono)
          with m it(1)[of j] ok show ?thesis
            by (simp del: read_next_visitor_loop.simps)
        qed
        then show ?thesis by blast
      qed
    qed
  qed
qed


lemma push_chunk_invariant:
  assumes inc: "tokenizer_incremental ops pending" and src: "reads_from_list ops"
    and cr: "chunk_ready c" "chunk_ready c'" and same: "flatten ops pending c = flatten ops pending c'"
    and run: "read_next_visitor_loop ops m recorder c None log = Some (cf, ecf, log')"
  shows "\<exists>M. \<forall>m'. M \<le> m' \<longrightarrow>
           (\<exists>cf'. read_next_visitor_loop ops m' recorder c' None log = Some (cf', ecf, log'))"
proof -
  from flat_of_chunked[OF inc src cr(1) run] obtain M cf1 where
    "read_next_visitor_loop ops M recorder (flatten ops pending c) None log = Some (cf1, ecf, log')"
    by blast
  with same have "read_next_visitor_loop ops M recorder (flatten ops pending c') None log = Some (cf1, ecf, log')"
    by simp
  from chunked_of_flat[OF inc src cr(2) this] show ?thesis .
qed


subsection \<open>The first chunk\<close>

lemma stream_events_head:
  "\<not> p_done ops (p_new ops) \<Longrightarrow>
     stream_events ops n src =
       map_option (\<lambda>(evs, c, ec). (evs, ec)) (pull_from_head ops n n (stream_head ops src))"
  by (auto simp add: stream_events_def yaml_cursor_stream_ec_def cursor_done_def stream_init_def
      next_ec_def read_next_def pull_from_head_def stream_head_def Let_def
      split: option.splits prod.splits)

lemma stream_events_done:
  "p_done ops (p_new ops) \<Longrightarrow> stream_events ops (Suc n) src = Some ([], None)"
  by (simp add: stream_events_def yaml_cursor_stream_ec_def cursor_done_def stream_init_def Let_def)

lemma stream_events_0: "p_done ops (p_new ops) \<Longrightarrow> stream_events ops 0 src = None"
  by (simp add: stream_events_def yaml_cursor_stream_ec_def cursor_done_def stream_init_def Let_def)

lemma first_refill:
  assumes res: "tokenizer_resumable ops" and inc: "tokenizer_incremental ops pending"
    and src: "reads_from_list ops" and fresh: "p_source_exhausted ops (p_new ops)"
    and ok: "first_chunk_ok ops input k"
  shows "refill_block ops (stream_head ops (input, False)) None = (after_first_refill ops input k, None)"
    and "\<not> refill_failed ops (stream_head ops (input, False)) None"
    and "refill_block ops (after_first_refill ops input k) None = (after_first_refill ops input k, None)"
    and "\<not> refill_failed ops (after_first_refill ops input k) None"
    and "chunk_ready (after_first_refill ops input k)"
    and "flatten ops pending (after_first_refill ops input k) =
           (stream_init ops ([], True))
             \<lparr>m_parser := p_update ops (drop k input) (p_restart ops (p_new ops)),
              m_buffer := [], m_buffer_length := 0, m_eof := True, m_begin := False\<rparr>"
proof -
  let ?d = "default_max_buffer_length"
  have rd: "src_read ops = list_read" and ef: "src_eof ops = snd"
    using src by (simp_all add: reads_from_list_def)
  from ok have sk: "skip_bom ops (take ?d input) = (k, None)" and ne: "drop k (take ?d input) \<noteq> []"
    by (simp_all add: first_chunk_ok_def)
  from ne have tk: "take ?d input \<noteq> []" by auto
  from ne have kd: "k \<le> ?d" by (cases "k \<le> ?d") simp_all
  have ex0: "p_source_exhausted ops (p_restart ops (p_new ops))"
    using contract_restart(2)[OF res] fresh by simp
  have pend: "pending (p_update ops (drop k (take ?d input)) (p_restart ops (p_new ops))) = drop k (take ?d input)"
    using inc_pending_update[OF inc] by simp
  have ex1: "\<not> p_source_exhausted ops (p_update ops (drop k (take ?d input)) (p_restart ops (p_new ops)))"
    using inc_exhausted[OF inc] pend ne by simp
  show a: "refill_block ops (stream_head ops (input, False)) None = (after_first_refill ops input k, None)"
    using ex0 sk tk
    by (simp add: refill_block_def stream_head_def after_first_refill_def stream_init_def read_buffer_def
        rd ef list_read_def Let_def)
  show "\<not> refill_failed ops (stream_head ops (input, False)) None"
    using ex0 sk tk
    by (simp add: refill_failed_def stream_head_def stream_init_def read_buffer_def
        rd ef list_read_def Let_def)
  show "refill_block ops (after_first_refill ops input k) None = (after_first_refill ops input k, None)"
    using ex1 by (simp add: refill_block_def after_first_refill_def)
  show "\<not> refill_failed ops (after_first_refill ops input k) None"
    using ex1 by (simp add: refill_failed_def after_first_refill_def)
  show "chunk_ready (after_first_refill ops input k)"
    by (simp add: chunk_ready_def after_first_refill_def stream_init_def default_max_buffer_length_def)
  have cat: "drop k (take ?d input) @ drop ?d input = drop k input"
  proof -
    from ne have "k < length (take ?d input)" by (simp add: not_le)
    then have k0: "k - length (take ?d input) = 0" by simp
    have "drop k input = drop k (take ?d input @ drop ?d input)"
      by (simp only: append_take_drop_id)
    also have "\<dots> = drop k (take ?d input) @ drop (k - length (take ?d input)) (drop ?d input)"
      by (simp only: drop_append)
    also have "\<dots> = drop k (take ?d input) @ drop ?d input"
      by (simp only: k0 drop_0)
    finally show ?thesis by simp
  qed
  show "flatten ops pending (after_first_refill ops input k) =
           (stream_init ops ([], True))
             \<lparr>m_parser := p_update ops (drop k input) (p_restart ops (p_new ops)),
              m_buffer := [], m_buffer_length := 0, m_eof := True, m_begin := False\<rparr>"
    using pend cat inc_update_update[OF inc]
    by (simp add: flatten_def after_first_refill_def stream_init_def)
qed

lemma first_refill_loop:
  assumes res: "tokenizer_resumable ops" and inc: "tokenizer_incremental ops pending"
    and src: "reads_from_list ops" and fresh: "p_source_exhausted ops (p_new ops)"
    and ok: "first_chunk_ok ops input k"
  shows "read_next_visitor_loop ops (Suc m) recorder (stream_head ops (input, False)) None log
       = read_next_visitor_loop ops (Suc m) recorder (after_first_refill ops input k) None log"
proof -
  note f = first_refill[OF res inc src fresh ok]
  have s0: "\<not> p_stopped ops (m_parser (stream_head ops (input, False)))"
    using contract_restart(1)[OF res] by (simp add: stream_head_def)
  have s1: "\<not> p_stopped ops (m_parser (after_first_refill ops input k))"
    using contract_restart(1)[OF res] contract_update[OF res] by (simp add: after_first_refill_def)
  show ?thesis
    using s0 s1 f(1-4) by (simp add: push_head_Suc del: read_next_visitor_loop.simps)
qed

lemma stream_events_transfer:
  assumes res: "tokenizer_resumable ops" and inc: "tokenizer_incremental ops pending"
    and src: "reads_from_list ops" and fresh: "p_source_exhausted ops (p_new ops)"
    and ok: "first_chunk_ok ops input k" "first_chunk_ok ops input' k'"
    and same: "drop k input = drop k' input'"
    and run: "stream_events ops n (input, False) = Some (evs, ec)"
  shows "\<exists>n'. stream_events ops n' (input', False) = Some (evs, ec)"
proof (cases "p_done ops (p_new ops)")
  case True
  from run True obtain n0 where "n = Suc n0"
    by (cases n) (simp_all add: stream_events_0)
  with run True stream_events_done[OF True, of n0 "(input, False)"]
    stream_events_done[OF True, of n0 "(input', False)"]
  show ?thesis by auto
next
  case False
  let ?h = "stream_head ops (input, False)"
  let ?h' = "stream_head ops (input', False)"
  let ?c = "after_first_refill ops input k"
  let ?c' = "after_first_refill ops input' k'"
  have hk: "head_ok ops ?h" "head_ok ops ?h'"
    using contract_restart(1)[OF res] by (simp_all add: head_ok_def stream_head_def)
  have cache: "?h\<lparr>m_cursor_visitor := staj_new ops\<rparr> = ?h" "?h'\<lparr>m_cursor_visitor := staj_new ops\<rparr> = ?h'"
    by (simp_all add: stream_head_def stream_init_def)
  from run stream_events_head[OF False, of n "(input, False)"]
  obtain cf where "pull_from_head ops n n ?h = Some (evs, cf, ec)"
    by auto
  with cache(1) have "pull_from_head ops n n (?h\<lparr>m_cursor_visitor := staj_new ops\<rparr>) = Some (evs, cf, ec)"
    by simp
  from push_of_pull[OF res hk(1) this, of "[]"] obtain M cf1 where
    "\<forall>m. M \<le> m \<longrightarrow> read_next_visitor_loop ops m recorder ?h None [] = Some (cf1, ec, [] @ evs)"
    by blast
  then have "read_next_visitor_loop ops (Suc M) recorder ?h None [] = Some (cf1, ec, evs)"
    by (simp del: read_next_visitor_loop.simps)
  with first_refill_loop[OF res inc src fresh ok(1), of M "[]"]
  have r1: "read_next_visitor_loop ops (Suc M) recorder ?c None [] = Some (cf1, ec, evs)"
    by (simp del: read_next_visitor_loop.simps)
  have fl: "flatten ops pending ?c = flatten ops pending ?c'"
    using first_refill(6)[OF res inc src fresh ok(1)] first_refill(6)[OF res inc src fresh ok(2)] same
    by simp
  from push_chunk_invariant[OF inc src first_refill(5)[OF res inc src fresh ok(1)]
      first_refill(5)[OF res inc src fresh ok(2)] fl r1]
  obtain M' where "\<forall>m'. M' \<le> m' \<longrightarrow>
           (\<exists>cf'. read_next_visitor_loop ops m' recorder ?c' None [] = Some (cf', ec, evs))"
    by blast
  then obtain cf2 where "read_next_visitor_loop ops (Suc M') recorder ?c' None [] = Some (cf2, ec, evs)"
    by (metis le_Suc_eq order_refl)
  with first_refill_loop[OF res inc src fresh ok(2), of M' "[]"]
  have "read_next_visitor_loop ops (Suc M') recorder ?h' None [] = Some (cf2, ec, evs)"
    by (simp del: read_next_visitor_loop.simps)
  from pull_of_push[OF res hk(2) this, of "staj_new ops"] cache(2) obtain N evs2 cf3 where
    N: "\<forall>k n. N \<le> k \<longrightarrow> N \<le> n \<longrightarrow> pull_from_head ops k n ?h' = Some (evs2, cf3, ec)"
    and l: "evs = evs2"
    by auto
  from N have "pull_from_head ops N N ?h' = Some (evs2, cf3, ec)" by simp
  with l stream_events_head[OF False, of N "(input', False)"]
  have "stream_events ops N (input', False) = Some (evs, ec)" by simp
  then show ?thesis by blast
qed


lemma malformed_first_chunk:
  assumes "\<not> p_done ops (p_new ops)" "\<not> p_stopped ops (p_restart ops (p_new ops))"
    "p_source_exhausted ops (p_restart ops (p_new ops))" "\<not> src_eof ops src"
    "src_read ops default_max_buffer_length src = (chunk, src')" "chunk \<noteq> []"
    "skip_bom ops chunk = (k, Some e)"
  shows "yaml_cursor_stream_ec ops (Suc n) src None =
           Some ((stream_init ops src')\<lparr>m_parser := p_restart ops (p_new ops), m_buffer := chunk\<rparr>, Some e)"
    and "stream_events ops (Suc n) src = Some ([], Some e)"
    and "yaml_cursor_stream ops (Suc n) src =
           Some (Thrown (ser_error e (p_line ops (p_restart ops (p_new ops)))
                                     (p_column ops (p_restart ops (p_new ops))))
                        ((stream_init ops src')\<lparr>m_parser := p_restart ops (p_new ops), m_buffer := chunk\<rparr>))"
proof -
  show a: "yaml_cursor_stream_ec ops (Suc n) src None =
           Some ((stream_init ops src')\<lparr>m_parser := p_restart ops (p_new ops), m_buffer := chunk\<rparr>, Some e)"
    using assms
    by (simp add: yaml_cursor_stream_ec_def cursor_done_def stream_init_def next_ec_def read_next_def
        read_buffer_def Let_def)
  then show "stream_events ops (Suc n) src = Some ([], Some e)"
    by (simp add: stream_events_def del: pull_events.simps)
  from a show "yaml_cursor_stream ops (Suc n) src =
           Some (Thrown (ser_error e (p_line ops (p_restart ops (p_new ops)))
                                     (p_column ops (p_restart ops (p_new ops))))
                        ((stream_init ops src')\<lparr>m_parser := p_restart ops (p_new ops), m_buffer := chunk\<rparr>))"
    using assms(1)
    by (simp add: yaml_cursor_stream_def yaml_cursor_stream_ec_def cursor_done_def next_throwing_def
        stream_init_def Let_def del: read_next_loop.simps)
qed

subsection \<open>The completion check over a checking tokenizer\<close>

lemma checks_pending_update:
  "tokenizer_checks ops pending blank terminal extra \<Longrightarrow> pending (p_update ops xs p) = xs"
  by (simp add: tokenizer_checks_def)

lemma checks_exhausted:
  "tokenizer_checks ops pending blank terminal extra \<Longrightarrow> p_source_exhausted ops p = (pending p = [])"
  by (simp add: tokenizer_checks_def)

lemma checks_terminal_update:
  "tokenizer_checks ops pending blank terminal extra \<Longrightarrow> terminal (p_update ops xs p) = terminal p"
  by (simp add: tokenizer_checks_def)

lemma checks_blank:
  "tokenizer_checks ops pending blank terminal extra \<Longrightarrow> terminal p \<Longrightarrow> list_all blank (pending p) \<Longrightarrow>
     snd (p_check_done ops p) = None \<and> pending (fst (p_check_done ops p)) = []
     \<and> terminal (fst (p_check_done ops p))"
  unfolding tokenizer_checks_def by blast

lemma checks_extra:
  "tokenizer_checks ops pending blank terminal extra \<Longrightarrow> terminal p \<Longrightarrow> \<not> list_all blank (pending p) \<Longrightarrow>
     snd (p_check_done ops p) = Some extra"
  unfolding tokenizer_checks_def by blast

lemma check_done_loop_exhausted:
  assumes ck: "tokenizer_checks ops pending blank terminal extra" and src: "reads_from_list ops"
  shows "pending (m_parser c) = [] \<Longrightarrow> \<not> m_eof c \<Longrightarrow> \<not> m_begin c
    \<Longrightarrow> 0 < m_buffer_length c \<or> fst (m_source c) = []
    \<Longrightarrow> (snd (m_source c) \<longrightarrow> fst (m_source c) = []) \<Longrightarrow> terminal (m_parser c)
    \<Longrightarrow> \<exists>N. \<forall>k. N \<le> k \<longrightarrow>
          (\<exists>c'. check_done_loop ops k c None =
                  Some (c', if list_all blank (fst (m_source c)) then None else Some extra)
                \<and> (list_all blank (fst (m_source c)) \<longrightarrow> m_eof c'))"
proof (induction "length (fst (m_source c))" arbitrary: c rule: less_induct)
  case less
  obtain data flag where s: "m_source c = (data, flag)" by (cases "m_source c")
  have ex: "p_source_exhausted ops (m_parser c)"
    using checks_exhausted[OF ck] less.prems(1) by simp
  have rd: "src_read ops = list_read" "src_eof ops = snd"
    using src by (simp_all add: reads_from_list_def)
  consider (flag) "flag" | (empty) "\<not> flag" "data = []" | (data) "\<not> flag" "data \<noteq> []"
    by blast
  then show ?case
  proof cases
    case flag
    with less.prems(5) s have d: "data = []" by simp
    have "check_done_loop ops (Suc (Suc k)) c None = Some (c\<lparr>m_eof := True\<rparr>, None)" for k
      using ex s flag less.prems(2) by (simp add: rd)
    then have "\<forall>k. 2 \<le> k \<longrightarrow> check_done_loop ops k c None = Some (c\<lparr>m_eof := True\<rparr>, None)"
      by (metis Suc_le_D numeral_2_eq_2 Suc_le_mono)
    with s d show ?thesis
      by (intro exI[of _ 2]) simp
  next
    case empty
    let ?c1 = "c\<lparr>m_source := ([], 0 < m_buffer_length c), m_buffer := [], m_eof := True\<rparr>"
    have "check_done_loop ops (Suc (Suc k)) c None = Some (?c1, None)" for k
      using ex s empty less.prems(2) by (simp add: rd read_buffer_def list_read_def)
    then have "\<forall>k. 2 \<le> k \<longrightarrow> check_done_loop ops k c None = Some (?c1, None)"
      by (metis Suc_le_D numeral_2_eq_2 Suc_le_mono)
    with s empty show ?thesis
      by (intro exI[of _ 2]) simp
  next
    case data
    with less.prems(4) s have len: "0 < m_buffer_length c" by simp
    let ?chunk = "take (m_buffer_length c) data"
    let ?c1 = "c\<lparr>m_source := (drop (m_buffer_length c) data, length data < m_buffer_length c),
                 m_buffer := ?chunk, m_parser := p_update ops ?chunk (m_parser c)\<rparr>"
    have ne: "?chunk \<noteq> []" using data len by simp
    have t1: "terminal (p_update ops ?chunk (m_parser c))"
      using checks_terminal_update[OF ck] less.prems(6) by simp
    have p1: "pending (p_update ops ?chunk (m_parser c)) = ?chunk"
      using checks_pending_update[OF ck] by simp
    obtain p' e where cd: "p_check_done ops (p_update ops ?chunk (m_parser c)) = (p', e)"
      by (cases "p_check_done ops (p_update ops ?chunk (m_parser c))")
    have step: "check_done_loop ops (Suc k) c None =
        (if e \<noteq> None then Some (?c1\<lparr>m_parser := p'\<rparr>, e)
         else check_done_loop ops k (?c1\<lparr>m_parser := p'\<rparr>) None)" for k
      using ex s data less.prems(2,3) ne cd
      by (simp add: rd read_buffer_def list_read_def set_ec_def split: option.splits)
    show ?thesis
    proof (cases "list_all blank ?chunk")
      case True
      from checks_blank[OF ck t1] True p1 cd have e: "e = None" and pp: "pending p' = []" and tp: "terminal p'"
        by simp_all
      let ?c2 = "?c1\<lparr>m_parser := p'\<rparr>"
      have "length (fst (m_source ?c2)) < length (fst (m_source c))"
        using s data len by simp
      from less.hyps[OF this] pp tp less.prems(2,3) len
      obtain N where N: "\<forall>k. N \<le> k \<longrightarrow>
          (\<exists>c'. check_done_loop ops k ?c2 None =
                  Some (c', if list_all blank (fst (m_source ?c2)) then None else Some extra)
                \<and> (list_all blank (fst (m_source ?c2)) \<longrightarrow> m_eof c'))"
        by auto
      have all: "list_all blank data \<longleftrightarrow> list_all blank (drop (m_buffer_length c) data)"
        using True list_all_append[of blank ?chunk "drop (m_buffer_length c) data"] by simp
      have "\<forall>k. Suc N \<le> k \<longrightarrow>
          (\<exists>c'. check_done_loop ops k c None =
                  Some (c', if list_all blank (fst (m_source c)) then None else Some extra)
                \<and> (list_all blank (fst (m_source c)) \<longrightarrow> m_eof c'))"
      proof (intro allI impI)
        fix k assume "Suc N \<le> k"
        then obtain k' where k: "k = Suc k'" "N \<le> k'" by (cases k) auto
        from N k(2) obtain c' where
          "check_done_loop ops k' ?c2 None =
                  Some (c', if list_all blank (fst (m_source ?c2)) then None else Some extra)"
          "list_all blank (fst (m_source ?c2)) \<longrightarrow> m_eof c'"
          by blast
        with step[of k'] e k(1) s all
        show "\<exists>c'. check_done_loop ops k c None =
                  Some (c', if list_all blank (fst (m_source c)) then None else Some extra)
                \<and> (list_all blank (fst (m_source c)) \<longrightarrow> m_eof c')"
          by (simp del: check_done_loop.simps)
      qed
      then show ?thesis by blast
    next
      case False
      from checks_extra[OF ck t1] False p1 cd have e: "e = Some extra" by simp
      have nall: "\<not> list_all blank data"
        using False list_all_append[of blank ?chunk "drop (m_buffer_length c) data"] by simp
      have "\<forall>k. 1 \<le> k \<longrightarrow> check_done_loop ops k c None = Some (?c1\<lparr>m_parser := p'\<rparr>, Some extra)"
      proof (intro allI impI)
        fix k :: nat assume "1 \<le> k"
        then obtain k' where k: "k = Suc k'" by (cases k) auto
        with step[of k'] e show "check_done_loop ops k c None = Some (?c1\<lparr>m_parser := p'\<rparr>, Some extra)"
          by (simp del: check_done_loop.simps)
      qed
      with s nall show ?thesis
        by (intro exI[of _ 1]) simp
    qed
  qed
qed


lemma check_done_loop_total:
  assumes ck: "tokenizer_checks ops pending blank terminal extra" and src: "reads_from_list ops"
    and c: "\<not> m_eof c" "\<not> m_begin c" "0 < m_buffer_length c \<or> fst (m_source c) = []"
      "snd (m_source c) \<longrightarrow> fst (m_source c) = []" "terminal (m_parser c)"
  shows "\<exists>N. \<forall>k. N \<le> k \<longrightarrow>
          (\<exists>c'. check_done_loop ops k c None =
                  Some (c', if list_all blank (pending (m_parser c) @ fst (m_source c)) then None else Some extra)
                \<and> (list_all blank (pending (m_parser c) @ fst (m_source c)) \<longrightarrow> m_eof c'))"
proof (cases "pending (m_parser c) = []")
  case True
  with check_done_loop_exhausted[OF ck src True c] show ?thesis by simp
next
  case False
  then have ex: "\<not> p_source_exhausted ops (m_parser c)"
    using checks_exhausted[OF ck] by simp
  obtain p' e where cd: "p_check_done ops (m_parser c) = (p', e)"
    by (cases "p_check_done ops (m_parser c)")
  have step: "check_done_loop ops (Suc k) c None =
        (if e \<noteq> None then Some (c\<lparr>m_parser := p'\<rparr>, e)
         else check_done_loop ops k (c\<lparr>m_parser := p'\<rparr>) None)" for k
    using ex c(1) cd by (simp add: set_ec_def split: option.splits)
  show ?thesis
  proof (cases "list_all blank (pending (m_parser c))")
    case True
    from checks_blank[OF ck c(5) True] cd have e: "e = None" and pp: "pending p' = []" and tp: "terminal p'"
      by simp_all
    let ?c2 = "c\<lparr>m_parser := p'\<rparr>"
    from check_done_loop_exhausted[OF ck src, of ?c2] pp tp c
    obtain N where N: "\<forall>k. N \<le> k \<longrightarrow>
          (\<exists>c'. check_done_loop ops k ?c2 None =
                  Some (c', if list_all blank (fst (m_source c)) then None else Some extra)
                \<and> (list_all blank (fst (m_source c)) \<longrightarrow> m_eof c'))"
      by auto
    have "\<forall>k. Suc N \<le> k \<longrightarrow>
          (\<exists>c'. check_done_loop ops k c None =
                  Some (c', if list_all blank (pending (m_parser c) @ fst (m_source c)) then None else Some extra)
                \<and> (list_all blank (pending (m_parser c) @ fst (m_source c)) \<longrightarrow> m_eof c'))"
    proof (intro allI impI)
      fix k assume "Suc N \<le> k"
      then obtain k' where k: "k = Suc k'" "N \<le> k'" by (cases k) auto
      from N k(2) obtain c' where
        "check_done_loop ops k' ?c2 None =
                Some (c', if list_all blank (fst (m_source c)) then None else Some extra)"
        "list_all blank (fst (m_source c)) \<longrightarrow> m_eof c'"
        by blast
      with step[of k'] e k(1) True
      show "\<exists>c'. check_done_loop ops k c None =
                  Some (c', if list_all blank (pending (m_parser c) @ fst (m_source c)) then None else Some extra)
                \<and> (list_all blank (pending (m_parser c) @ fst (m_source c)) \<longrightarrow> m_eof c')"
        by (simp del: check_done_loop.simps)
    qed
    then show ?thesis by blast
  next
    case False
    from checks_extra[OF ck c(5) False] cd have e: "e = Some extra" by simp
    have "\<forall>k. 1 \<le> k \<longrightarrow> check_done_loop ops k c None = Some (c\<lparr>m_parser := p'\<rparr>, Some extra)"
    proof (intro allI impI)
      fix k :: nat assume "1 \<le> k"
      then obtain k' where k: "k = Suc k'" by (cases k) auto
      with step[of k'] e show "check_done_loop ops k c None = Some (c\<lparr>m_parser := p'\<rparr>, Some extra)"
        by (simp del: check_done_loop.simps)
    qed
    with False show ?thesis
      by (intro exI[of _ 1]) simp
  qed
qed

lemma check_done_loop_refill:
  "(\<not> m_eof c \<and> p_source_exhausted ops (m_parser c) \<and> src_eof ops (m_source c) \<longrightarrow>
        check_done_loop ops (Suc (Suc n)) c None = Some (c\<lparr>m_eof := True\<rparr>, None))
   \<and> (\<not> m_eof c \<and> p_source_exhausted ops (m_parser c) \<and> \<not> src_eof ops (m_source c)
        \<and> src_read ops (m_buffer_length c) (m_source c) = ([], src') \<longrightarrow>
        check_done_loop ops (Suc (Suc n)) c None =
          Some (c\<lparr>m_source := src', m_buffer := [], m_eof := True\<rparr>, None))
   \<and> (\<not> m_eof c \<and> p_source_exhausted ops (m_parser c) \<and> \<not> src_eof ops (m_source c)
        \<and> src_read ops (m_buffer_length c) (m_source c) = (chunk, src') \<and> chunk \<noteq> [] \<and> \<not> m_begin c
        \<and> p_check_done ops (p_update ops chunk (m_parser c)) = (p', e) \<longrightarrow>
        check_done_loop ops (Suc n) c None =
          (case e of
             Some x \<Rightarrow> Some (c\<lparr>m_source := src', m_buffer := chunk, m_parser := p'\<rparr>, Some x)
           | None \<Rightarrow> check_done_loop ops n (c\<lparr>m_source := src', m_buffer := chunk, m_parser := p'\<rparr>) None))
   \<and> (\<not> m_eof c \<and> p_source_exhausted ops (m_parser c) \<and> \<not> src_eof ops (m_source c)
        \<and> src_read ops (m_buffer_length c) (m_source c) = (chunk, src') \<and> chunk \<noteq> [] \<and> m_begin c
        \<and> skip_bom ops chunk = (k, Some x) \<longrightarrow>
        check_done_loop ops (Suc n) c None = Some (c\<lparr>m_source := src', m_buffer := chunk\<rparr>, Some x))
   \<and> (\<not> m_eof c \<and> \<not> p_source_exhausted ops (m_parser c) \<and> p_check_done ops (m_parser c) = (p', e) \<longrightarrow>
        check_done_loop ops (Suc n) c None =
          (case e of
             Some x \<Rightarrow> Some (c\<lparr>m_parser := p'\<rparr>, Some x)
           | None \<Rightarrow> check_done_loop ops n (c\<lparr>m_parser := p'\<rparr>) None))"
  by (auto simp add: read_buffer_def set_ec_def split: option.splits)


subsection \<open>Facts about the example instance\<close>

lemma src_read_bounded_length:
  "src_read_bounded ops \<Longrightarrow> length (fst (src_read ops n s)) \<le> n"
  by (simp add: src_read_bounded_def)

lemma toy_bounded: "src_read_bounded toy_ops"
  by (simp add: src_read_bounded_def toy_ops_def list_read_def split: prod.splits)

lemma example_primed_constructed:
  "yaml_cursor_stream_ec toy_ops 5 ([91, 55, 32, 56, 93], False) None = Some (example_primed, None)"
  by (simp add: cursor_eval toy_eval example_primed_def cong: prod.case_cong_weak option.case_cong_weak)

lemma example_primed_next:
  "next_ec toy_ops 3 example_primed None =
     Some (example_primed\<lparr>m_parser := \<lparr>rest = [32, 56, 93], running = False, state = Inside 0\<rparr>,
                          m_cursor_visitor := Scalar 55\<rparr>, None)"
  by (simp add: cursor_eval toy_eval example_primed_def cong: prod.case_cong_weak option.case_cong_weak)

lemma example_slice_constructed:
  "yaml_cursor_slice_ec toy_ops 3 [239, 187, 191, 91, 55, 93] None = Some (example_slice, None)"
  by (simp add: cursor_eval toy_eval example_slice_def cong: prod.case_cong_weak option.case_cong_weak)

lemma example_done_reached:
  "yaml_cursor_stream_ec toy_ops 5 ([55], False) None =
     Some (example_done\<lparr>m_parser := \<lparr>rest = [], running = False, state = Accept\<rparr>, m_eof := False\<rparr>, None)
   \<and> pull_events toy_ops 5 (example_done\<lparr>m_parser := \<lparr>rest = [], running = False, state = Accept\<rparr>, m_eof := False\<rparr>)
       = Some ([Scalar 55], example_done, None)"
  by (simp add: cursor_eval toy_eval example_done_def cong: prod.case_cong_weak option.case_cong_weak)

lemma example_primed_read_to:
  "read_to_ec toy_ops 10 recorder example_primed None [] =
     Some (example_primed\<lparr>m_parser := \<lparr>rest = [], running = False, state = Done\<rparr>, m_eof := True\<rparr>,
           None, [BeginArray, Scalar 55, Scalar 56, EndArray])"
  by (simp add: cursor_eval toy_eval example_primed_def cong: prod.case_cong_weak option.case_cong_weak)

lemma example_trailing_reached:
  "pull_events toy_ops 5 (fst (the (yaml_cursor_stream_ec toy_ops 5 ([55, 32, 56], False) None)))
     = Some ([Scalar 55], example_trailing_value, None)
   \<and> pull_events toy_ops 5 (fst (the (yaml_cursor_stream_ec toy_ops 5 ([55, 32, 32], False) None)))
     = Some ([Scalar 55], example_trailing_space, None)"
  by (simp add: cursor_eval toy_eval example_trailing_value_def example_trailing_space_def
      cong: prod.case_cong_weak option.case_cong_weak)

lemma example_trailing_check:
  "check_done_ec toy_ops 5 example_trailing_value None =
     Some (example_trailing_value\<lparr>m_parser := \<lparr>rest = [56], running = False, state = Done\<rparr>\<rparr>, Some (parse_error 3))
   \<and> check_done_ec toy_ops 5 example_trailing_space None =
     Some (example_trailing_space\<lparr>m_parser := \<lparr>rest = [], running = False, state = Done\<rparr>, m_eof := True\<rparr>, None)"
  by (simp add: cursor_eval toy_eval example_trailing_value_def example_trailing_space_def
      cong: prod.case_cong_weak option.case_cong_weak)

lemma toy_step_not_Done: "toy_step st x = Some (ev, st') \<Longrightarrow> st' \<noteq> Done"
  by (cases st) (auto split: if_splits nat.splits)

lemma toy_scan_Emit:
  "toy_scan xs st = Emit ev k \<Longrightarrow>
     \<exists>p1. k False = Ret p1 None \<and> \<not> running p1 \<and> state p1 \<noteq> Done
          \<and> k True = (if rest p1 = [] then Ret (p1\<lparr>running := True\<rparr>) None
                      else toy_parse_some (p1\<lparr>running := True\<rparr>))"
proof (induction xs)
  case Nil
  then show ?case by simp
next
  case (Cons x xs)
  show ?case
  proof (cases "st = Accept \<or> st = Done \<or> x = 32")
    case True
    with Cons show ?thesis by (auto split: if_splits)
  next
    case False
    with Cons.prems obtain st' where st: "toy_step st x = Some (ev, st')"
      and k: "k = (\<lambda>continue. if continue then toy_scan xs st'
                 else Ret \<lparr>rest = xs, running = False, state = st'\<rparr> None)"
      by (auto split: option.splits)
    have nd: "st' \<noteq> Done" using toy_step_not_Done[OF st] .
    have "toy_scan xs st' = (if xs = [] then Ret \<lparr>rest = xs, running = True, state = st'\<rparr> None
            else toy_parse_some \<lparr>rest = xs, running = True, state = st'\<rparr>)"
      by (cases xs) (simp_all add: toy_parse_some_def)
    with k nd show ?thesis by simp
  qed
qed

lemma toy_scan_Ret:
  "toy_scan xs st = Ret p' None \<Longrightarrow> \<not> running p' \<Longrightarrow> state p' = Done"
  by (induction xs) (auto split: if_splits option.splits)

lemma toy_resumable: "tokenizer_resumable toy_ops"
proof -
  have emit: "\<exists>p1. k False = Ret p1 None \<and> \<not> running p1 \<and> state p1 \<noteq> Done
          \<and> k True = (if rest p1 = [] then Ret (p1\<lparr>running := True\<rparr>) None
                      else toy_parse_some (p1\<lparr>running := True\<rparr>))"
    if "running p" "toy_parse_some p = Emit ev k" for p ev k
    using that toy_scan_Emit[of "rest p" "state p" ev k]
    by (auto simp: toy_parse_some_def split: if_splits)
  have ret: "state p' = Done" if "running p" "toy_parse_some p = Ret p' None" "\<not> running p'" for p p'
    using that toy_scan_Ret[of "rest p" "state p" p']
    by (auto simp: toy_parse_some_def split: if_splits)
  have emit': "\<exists>p1. k False = Ret p1 None \<and> p_stopped toy_ops p1 \<and> \<not> p_done toy_ops p1
          \<and> k True = (if p_source_exhausted toy_ops p1 then Ret (p_restart toy_ops p1) None
                      else p_parse_some toy_ops (p_restart toy_ops p1))"
    if "\<not> p_stopped toy_ops p \<and> p_parse_some toy_ops p = Emit ev k" for p ev k
    using emit[of p ev k] that by (auto simp add: toy_ops_def)
  have ret': "p_done toy_ops p'"
    if "\<not> p_stopped toy_ops p \<and> p_parse_some toy_ops p = Ret p' None \<and> p_stopped toy_ops p'" for p p'
    using ret[of p p'] that by (simp add: toy_ops_def)
  have basic: "(\<forall>ev cache. staj_visit toy_ops ev cache = (False, ev))
     \<and> (\<forall>p. \<not> p_stopped toy_ops (p_restart toy_ops p)
            \<and> (p_source_exhausted toy_ops (p_restart toy_ops p) \<longleftrightarrow> p_source_exhausted toy_ops p))
     \<and> (\<forall>chunk p. p_stopped toy_ops (p_update toy_ops chunk p) \<longleftrightarrow> p_stopped toy_ops p)"
    by (simp add: toy_ops_def)
  show ?thesis
    unfolding tokenizer_resumable_def
    using basic emit' ret' by blast
qed


lemma toy_scan_append:
  "ys \<noteq> [] \<Longrightarrow> toy_scan (xs @ ys) st = extend_run toy_ops rest ys (toy_scan xs st)"
proof (induction xs arbitrary: st)
  case Nil
  then show ?case
    by (cases ys) (auto simp add: toy_ops_def toy_parse_some_def)
next
  case (Cons x xs)
  then show ?case
    by (auto simp add: toy_ops_def split: option.splits)
qed

lemma toy_incremental: "tokenizer_incremental toy_ops rest"
proof -
  have law: "p_parse_some toy_ops (p_update toy_ops (xs @ ys) p) =
      extend_run toy_ops rest ys (p_parse_some toy_ops (p_update toy_ops xs p))"
    if "\<not> p_stopped toy_ops p \<and> xs \<noteq> [] \<and> ys \<noteq> []" for xs ys p
  proof -
    from that have r: "running p" "xs \<noteq> []" "ys \<noteq> []"
      by (simp_all add: toy_ops_def)
    have sel: "p_parse_some toy_ops = toy_parse_some" "p_update toy_ops = (\<lambda>chunk p. p\<lparr>rest := chunk\<rparr>)"
      by (simp_all add: toy_ops_def)
    show ?thesis
    proof (cases "state p = Accept")
      case True
      with r show ?thesis
        by (simp add: sel toy_parse_some_def)
    next
      case False
      with r toy_scan_append[OF r(3), of xs "state p"] show ?thesis
        by (simp add: sel toy_parse_some_def)
    qed
  qed
  have basic: "(\<forall>xs p. rest (p_update toy_ops xs p) = xs)
     \<and> (\<forall>p. p_source_exhausted toy_ops p \<longleftrightarrow> rest p = [])
     \<and> (\<forall>xs p. p_stopped toy_ops (p_update toy_ops xs p) \<longleftrightarrow> p_stopped toy_ops p)
     \<and> (\<forall>xs ys p. p_update toy_ops xs (p_update toy_ops ys p) = p_update toy_ops xs p)
     \<and> (\<forall>p. p_update toy_ops (rest p) p = p)"
    by (simp add: toy_ops_def)
  show ?thesis
    unfolding tokenizer_incremental_def using basic law by blast
qed

lemma toy_reads_from_list: "reads_from_list toy_ops"
  by (simp add: reads_from_list_def toy_ops_def)


lemma padding_facts:
  "length padding = 16383" "padding \<noteq> []" "dropWhile (\<lambda>x. x = 32) padding = []"
  "list_all (\<lambda>x. x = 32) padding"
  by (simp_all add: padding_def list_all_iff)

lemma example_long_reached:
  "pull_events toy_ops 5 (fst (the (yaml_cursor_stream_ec toy_ops 5 (55 # padding @ [32, 56], False) None)))
     = Some ([Scalar 55], example_long_value, None)
   \<and> pull_events toy_ops 5 (fst (the (yaml_cursor_stream_ec toy_ops 5 (55 # padding @ [32, 32], False) None)))
     = Some ([Scalar 55], example_long_space, None)"
  by (simp add: cursor_eval toy_eval example_long_value_def example_long_space_def padding_facts
      cong: prod.case_cong_weak option.case_cong_weak)

lemma example_long_check:
  "check_done_ec toy_ops 5 example_long_value None =
     Some (example_long_value\<lparr>m_source := ([], True), m_buffer := [32, 56],
             m_parser := \<lparr>rest = [56], running = False, state = Done\<rparr>\<rparr>, Some (parse_error 3))
   \<and> check_done_ec toy_ops 5 example_long_space None =
     Some (example_long_space\<lparr>m_source := ([], True), m_buffer := [32, 32],
             m_parser := \<lparr>rest = [], running = False, state = Done\<rparr>, m_eof := True\<rparr>, None)"
  by (simp add: cursor_eval toy_eval example_long_value_def example_long_space_def padding_facts
      cong: prod.case_cong_weak option.case_cong_weak)

lemma toy_checks:
  "tokenizer_checks toy_ops rest (\<lambda>x. x = 32) (\<lambda>p. state p = Accept \<or> state p = Done) (parse_error 3)"
proof -
  have blank: "dropWhile (\<lambda>x. x = 32) xs = [] \<longleftrightarrow> list_all (\<lambda>x. x = 32) xs" for xs :: "nat list"
    by (simp add: dropWhile_eq_Nil_conv list_all_iff)
  have cd: "p_check_done toy_ops = toy_check_done"
    by (simp add: toy_ops_def)
  have a: "snd (toy_check_done p) = None \<and> rest (fst (toy_check_done p)) = []
      \<and> (state (fst (toy_check_done p)) = Accept \<or> state (fst (toy_check_done p)) = Done)"
    if "state p = Accept \<or> state p = Done" "list_all (\<lambda>x. x = 32) (rest p)" for p
  proof -
    from that(2) blank[of "rest p"] have "dropWhile (\<lambda>x. x = 32) (rest p) = []" by simp
    with that(1) show ?thesis by (auto simp del: dropWhile_eq_Nil_conv)
  qed
  have b: "snd (toy_check_done p) = Some (parse_error 3)"
    if "state p = Accept \<or> state p = Done" "\<not> list_all (\<lambda>x. x = 32) (rest p)" for p
  proof -
    from that(2) blank[of "rest p"] obtain y ys where "dropWhile (\<lambda>x. x = 32) (rest p) = y # ys"
      by (cases "dropWhile (\<lambda>x. x = 32) (rest p)") simp_all
    with that(1) show ?thesis by (auto simp del: dropWhile_eq_Nil_conv)
  qed
  have basic: "(\<forall>xs p. rest (p_update toy_ops xs p) = xs)
     \<and> (\<forall>p. p_source_exhausted toy_ops p \<longleftrightarrow> rest p = [])
     \<and> (\<forall>xs p. (state (p_update toy_ops xs p) = Accept \<or> state (p_update toy_ops xs p) = Done)
            \<longleftrightarrow> (state p = Accept \<or> state p = Done))"
    by (simp add: toy_ops_def)
  show ?thesis
    unfolding tokenizer_checks_def cd using basic a b by blast
qed





section \<open>The claims\<close>

subsection \<open>Pull and push deliver the same events\<close>

text \<open>
  Claim C1. Take a tokenizer and an event cache that satisfy \<open>tokenizer_resumable\<close>, and a
  cursor that is not done (the state a constructor leaves on a well-formed input: the
  first event is cached). Reading \<^verbatim>\<open>current()\<close> and calling \<^verbatim>\<open>next\<close> until the cursor is
  done, and one call of \<^verbatim>\<open>read_to\<close> with a recording visitor, started from that same
  state, deliver the same events in the same order and end with the same error code:
  whenever the pull loop completes, \<^verbatim>\<open>read_to\<close> completes with the pulled events as its
  log, and whenever \<^verbatim>\<open>read_to\<close> completes, the pull loop completes with the log as its
  events.
\<close>

theorem pull_events_equal_read_to_events:
  assumes "tokenizer_resumable ops" and "\<not> cursor_done ops c"
  shows "(pull_events ops n c = Some (evs, cp, ecp) \<longrightarrow>
            (\<exists>m cv. read_to_ec ops m recorder c None [] = Some (cv, ecp, evs)))
       \<and> (read_to_ec ops m recorder c None [] = Some (cv, ecv, log) \<longrightarrow>
            (\<exists>n cp. pull_events ops n c = Some (log, cp, ecv)))"
proof (intro conjI impI)
  let ?h = "c\<lparr>m_parser := p_restart ops (m_parser c)\<rparr>"
  have hk: "head_ok ops ?h"
    using contract_restart(1)[OF assms(1)] by (simp add: head_ok_def)
  have cache: "?h\<lparr>m_cursor_visitor := current c\<rparr> = ?h"
    by (simp add: current_def)
  have push: "read_to_ec ops m recorder c None [] = read_next_visitor_loop ops m recorder ?h None [current c]" for m
    by (simp add: read_to_ec_def staj_to_saj_event_def recorder_def read_next_visitor_def current_def)
  {
    assume pe: "pull_events ops n c = Some (evs, cp, ecp)"
    then obtain n' where n: "n = Suc n'" by (cases n) simp_all
    from pe n assms(2) obtain evs' where e: "evs = current c # evs'"
      and ph: "pull_from_head ops (Suc n') n' ?h = Some (evs', cp, ecp)"
      by (auto simp add: pull_events_Suc simp del: pull_events.simps)
    from ph cache have "pull_from_head ops (Suc n') n' (?h\<lparr>m_cursor_visitor := current c\<rparr>) = Some (evs', cp, ecp)"
      by simp
    from push_of_pull[OF assms(1) hk this, of "[current c]"] obtain M cf' where
      "\<forall>m. M \<le> m \<longrightarrow> read_next_visitor_loop ops m recorder ?h None [current c]
          = Some (cf', ecp, [current c] @ evs')"
      by blast
    then have "read_to_ec ops M recorder c None [] = Some (cf', ecp, evs)"
      using e push by simp
    then show "\<exists>m cv. read_to_ec ops m recorder c None [] = Some (cv, ecp, evs)"
      by blast
  }
  {
    assume "read_to_ec ops m recorder c None [] = Some (cv, ecv, log)"
    then have run: "read_next_visitor_loop ops m recorder ?h None [current c] = Some (cv, ecv, log)"
      using push by simp
    from pull_of_push[OF assms(1) hk run, of "current c"] cache obtain N evs' cf' where
      N: "\<forall>k n. N \<le> k \<longrightarrow> N \<le> n \<longrightarrow> pull_from_head ops k n ?h = Some (evs', cf', ecv)"
      and l: "log = [current c] @ evs'"
      by auto
    from N have "pull_from_head ops (Suc N) N ?h = Some (evs', cf', ecv)"
      by simp
    with assms(2) l have "pull_events ops (Suc N) c = Some (log, cf', ecv)"
      by (simp add: pull_events_Suc del: pull_events.simps)
    then show "\<exists>n cp. pull_events ops n c = Some (log, cp, ecv)"
      by blast
  }
qed


theorem pull_events_equal_read_to_events_witness:
  "tokenizer_resumable toy_ops \<and> \<not> cursor_done toy_ops example_primed
   \<and> pull_events toy_ops 10 example_primed =
        Some ([BeginArray, Scalar 55, Scalar 56, EndArray],
              example_primed\<lparr>m_parser := \<lparr>rest = [], running = False, state = Done\<rparr>,
                             m_cursor_visitor := EndArray, m_eof := True\<rparr>, None)
   \<and> (\<exists>m cv. read_to_ec toy_ops m recorder example_primed None [] =
                 Some (cv, None, [BeginArray, Scalar 55, Scalar 56, EndArray]))
   \<and> read_to_ec toy_ops 10 recorder example_primed None [] =
        Some (example_primed\<lparr>m_parser := \<lparr>rest = [], running = False, state = Done\<rparr>, m_eof := True\<rparr>,
              None, [BeginArray, Scalar 55, Scalar 56, EndArray])
   \<and> (\<exists>n cp. pull_events toy_ops n example_primed =
                 Some ([BeginArray, Scalar 55, Scalar 56, EndArray], cp, None))"
proof -
  have nd: "\<not> cursor_done toy_ops example_primed"
    by (simp add: cursor_done_def toy_ops_def example_primed_def)
  have pull: "pull_events toy_ops 10 example_primed =
        Some ([BeginArray, Scalar 55, Scalar 56, EndArray],
              example_primed\<lparr>m_parser := \<lparr>rest = [], running = False, state = Done\<rparr>,
                             m_cursor_visitor := EndArray, m_eof := True\<rparr>, None)"
    by (simp add: cursor_eval toy_eval example_primed_def cong: prod.case_cong_weak option.case_cong_weak)
  show ?thesis
    using pull_events_equal_read_to_events[OF toy_resumable nd, where n = 10 and m = 10
        and evs = "[BeginArray, Scalar 55, Scalar 56, EndArray]" and ecp = None and ecv = None
        and log = "[BeginArray, Scalar 55, Scalar 56, EndArray]"
        and cp = "example_primed\<lparr>m_parser := \<lparr>rest = [], running = False, state = Done\<rparr>,
                             m_cursor_visitor := EndArray, m_eof := True\<rparr>"
        and cv = "example_primed\<lparr>m_parser := \<lparr>rest = [], running = False, state = Done\<rparr>, m_eof := True\<rparr>"]
      toy_resumable nd pull example_primed_read_to
    by simp
qed

subsection \<open>Error duality\<close>

text \<open>
  Claim C2. For each of \<^verbatim>\<open>next\<close>, \<^verbatim>\<open>read_to\<close> and \<^verbatim>\<open>check_done\<close>, the throwing form is the
  form that sets an error code, called with a fresh code, followed by a conversion: it
  does not return exactly when the other does not, it returns normally with cursor \<open>c'\<close>
  exactly when the other leaves \<open>c'\<close> and a zero code, and it throws with the cursor in
  state \<open>c'\<close> exactly when the other leaves \<open>c'\<close> and a non-zero code \<open>e\<close>, the exception
  then carrying \<open>e\<close> and the line and column of \<open>c'\<close>. So the two forms leave the cursor
  (and the visitor) in the same state.
\<close>

theorem throwing_forms_wrap_error_code_forms:
  "(next_throwing ops n c = None \<longleftrightarrow> next_ec ops n c None = None)
   \<and> (next_throwing ops n c = Some (Returned c') \<longleftrightarrow> next_ec ops n c None = Some (c', None))
   \<and> (next_throwing ops n c = Some (Thrown x c') \<longleftrightarrow>
        (\<exists>e. next_ec ops n c None = Some (c', Some e) \<and> x = ser_error e (line ops c') (column ops c')))
   \<and> (read_to_throwing ops n v c s = None \<longleftrightarrow> read_to_ec ops n v c None s = None)
   \<and> (read_to_throwing ops n v c s = Some (Returned (c', s')) \<longleftrightarrow>
        read_to_ec ops n v c None s = Some (c', None, s'))
   \<and> (read_to_throwing ops n v c s = Some (Thrown x (c', s')) \<longleftrightarrow>
        (\<exists>e. read_to_ec ops n v c None s = Some (c', Some e, s')
             \<and> x = ser_error e (line ops c') (column ops c')))
   \<and> (check_done_throwing ops n c = None \<longleftrightarrow> check_done_ec ops n c None = None)
   \<and> (check_done_throwing ops n c = Some (Returned c') \<longleftrightarrow> check_done_ec ops n c None = Some (c', None))
   \<and> (check_done_throwing ops n c = Some (Thrown x c') \<longleftrightarrow>
        (\<exists>e. check_done_ec ops n c None = Some (c', Some e)
             \<and> x = ser_error e (line ops c') (column ops c')))"
  by (auto simp: next_throwing_def read_to_throwing_def check_done_throwing_def line_def column_def
      split: option.splits prod.splits)

subsection \<open>Refill\<close>

lemma read_buffer_buffer:
  "m_buffer (fst (read_buffer ops c ec)) = fst (src_read ops (m_buffer_length c) (m_source c))"
  by (simp add: read_buffer_def Let_def split: prod.splits option.splits)

text \<open>
  Claim C4. A refill asks the source for \<^verbatim>\<open>buffer_length_\<close> units; afterwards the buffer
  holds exactly what the source returned, whatever it held before (the old contents are
  replaced, not extended), so with a source that keeps to its contract the buffer is no
  longer than the chunk length. If the source returned nothing, the only changes are the
  source's own state, the empty buffer and the end-of-file flag: the parser is not
  updated and the error code is untouched. Otherwise the parser is handed the chunk
  (when the flag \<^verbatim>\<open>begin_\<close> is clear) or the chunk after the mark (when it is set and the
  scan succeeds). The chunk length of a stream cursor starts as 16384.
\<close>

theorem read_buffer_replaces_buffer:
  "m_buffer (fst (read_buffer ops c ec)) = fst (src_read ops (m_buffer_length c) (m_source c))
   \<and> m_source (fst (read_buffer ops c ec)) = snd (src_read ops (m_buffer_length c) (m_source c))
   \<and> read_buffer ops (c\<lparr>m_buffer := old\<rparr>) ec = read_buffer ops c ec
   \<and> (src_read_bounded ops \<longrightarrow> length (m_buffer (fst (read_buffer ops c ec))) \<le> m_buffer_length c)
   \<and> (fst (src_read ops (m_buffer_length c) (m_source c)) = [] \<longrightarrow>
        read_buffer ops c ec =
          (c\<lparr>m_source := snd (src_read ops (m_buffer_length c) (m_source c)), m_buffer := [], m_eof := True\<rparr>, ec))
   \<and> (fst (src_read ops (m_buffer_length c) (m_source c)) \<noteq> [] \<and> \<not> m_begin c \<longrightarrow>
        m_parser (fst (read_buffer ops c ec)) =
          p_update ops (fst (src_read ops (m_buffer_length c) (m_source c))) (m_parser c))
   \<and> (fst (src_read ops (m_buffer_length c) (m_source c)) \<noteq> [] \<and> m_begin c
        \<and> skip_bom ops (fst (src_read ops (m_buffer_length c) (m_source c))) = (k, None) \<longrightarrow>
        m_parser (fst (read_buffer ops c ec)) =
          p_update ops (drop k (fst (src_read ops (m_buffer_length c) (m_source c)))) (m_parser c))
   \<and> buffer_length (stream_init ops src) = 16384"
  using src_read_bounded_length[of ops "m_buffer_length c" "m_source c"]
  by (auto simp: read_buffer_buffer buffer_length_def stream_init_def default_max_buffer_length_def)
     (auto simp: read_buffer_def Let_def split: prod.splits option.splits)

theorem read_buffer_replaces_buffer_witness:
  "src_read_bounded toy_ops
   \<and> m_begin example_stream
   \<and> skip_bom toy_ops (fst (src_read toy_ops (m_buffer_length example_stream) (m_source example_stream))) = (0, None)
   \<and> m_buffer (fst (read_buffer toy_ops example_stream None)) = [91, 55, 32, 56, 93]
   \<and> length (m_buffer (fst (read_buffer toy_ops example_stream None))) \<le> m_buffer_length example_stream
   \<and> m_parser (fst (read_buffer toy_ops example_stream None)) =
        p_update toy_ops [91, 55, 32, 56, 93] (m_parser example_stream)
   \<and> fst (src_read toy_ops (m_buffer_length example_empty_stream) (m_source example_empty_stream)) = []
   \<and> read_buffer toy_ops example_empty_stream None =
        (example_empty_stream\<lparr>m_source := ([], True), m_buffer := [], m_eof := True\<rparr>, None)
   \<and> \<not> m_begin example_primed
   \<and> fst (src_read toy_ops 2 ([7, 8, 9], False)) \<noteq> []
   \<and> m_parser (fst (read_buffer toy_ops (example_primed\<lparr>m_source := ([7, 8, 9], False), m_buffer_length := 2\<rparr>) None)) =
        p_update toy_ops [7, 8] (m_parser example_primed)"
  using read_buffer_replaces_buffer[of toy_ops example_stream None "[]" 0 "([], False)"]
    read_buffer_replaces_buffer[of toy_ops example_empty_stream None "[]" 0 "([], False)"]
    read_buffer_replaces_buffer[of toy_ops "example_primed\<lparr>m_source := ([7, 8, 9], False), m_buffer_length := 2\<rparr>" None "[]" 0 "([], False)"]
    toy_bounded
  by (simp add: example_stream_def example_empty_stream_def example_primed_def stream_init_def toy_ops_def
      list_read_def bom_scan_def default_max_buffer_length_def)

subsection \<open>The encoding-detection flag\<close>

text \<open>
  Claim C5, as stated, fails: a scan that reports a malformed mark returns before the flag
  is cleared. Constructing a stream cursor over the units \<open>FF FE 37\<close> ends with the
  encoding error and \<^verbatim>\<open>begin_\<close> still set; and a refill that follows such a failure scans
  again (here the second chunk \<open>EF BB BF\<close> is recognised as a mark and skipped).
\<close>

theorem begin_flag_kept_after_malformed_marker:
  "yaml_cursor_stream_ec toy_ops 5 ([255, 254, 55], False) None =
     Some (\<lparr>m_source = ([], True), m_parser = \<lparr>rest = [], running = True, state = Start\<rparr>,
            m_cursor_visitor = NullEvent, m_buffer = [255, 254, 55], m_buffer_length = 16384,
            m_eof = False, m_begin = True, m_capacity = 16384\<rparr>, Some (encoding_error 1))
   \<and> read_buffer toy_ops example_rescan None =
       (example_rescan\<lparr>m_source := ([239, 187, 191, 55], False), m_buffer := [255, 254, 0]\<rparr>,
        Some (encoding_error 1))
   \<and> m_begin (example_rescan\<lparr>m_source := ([239, 187, 191, 55], False), m_buffer := [255, 254, 0]\<rparr>)
   \<and> read_buffer toy_ops (example_rescan\<lparr>m_source := ([239, 187, 191, 55], False), m_buffer := [255, 254, 0]\<rparr>) None =
       (example_rescan\<lparr>m_source := ([55], False), m_buffer := [239, 187, 191],
                        m_parser := \<lparr>rest = [], running = True, state = Start\<rparr>, m_begin := False\<rparr>, None)"
  by (simp add: cursor_eval toy_eval example_rescan_def cong: prod.case_cong_weak option.case_cong_weak)

text \<open>
  Claim C5, amended. The flag is cleared by the first refill that reads a non-empty chunk
  and whose scan succeeds (valid or absent mark). A scan that reports a malformed mark
  leaves the flag set: the refill returns that error with nothing but the source and the
  buffer changed. Once the flag is clear it stays clear through every operation of the
  cursor, and every later non-empty refill hands its chunk to the parser unmodified.
\<close>

theorem begin_flag_cleared_by_successful_scan:
  "(m_begin c \<and> fst (src_read ops (m_buffer_length c) (m_source c)) \<noteq> []
      \<and> snd (skip_bom ops (fst (src_read ops (m_buffer_length c) (m_source c)))) = None
      \<longrightarrow> \<not> m_begin (fst (read_buffer ops c ec)))
   \<and> (m_begin c \<and> fst (src_read ops (m_buffer_length c) (m_source c)) \<noteq> []
      \<and> snd (skip_bom ops (fst (src_read ops (m_buffer_length c) (m_source c)))) = Some e
      \<longrightarrow> read_buffer ops c ec =
            (c\<lparr>m_source := snd (src_read ops (m_buffer_length c) (m_source c)),
               m_buffer := fst (src_read ops (m_buffer_length c) (m_source c))\<rparr>, Some e))
   \<and> (\<not> m_begin c \<longrightarrow> \<not> m_begin (fst (read_buffer ops c ec)))
   \<and> (\<not> m_begin c \<and> fst (src_read ops (m_buffer_length c) (m_source c)) \<noteq> []
      \<longrightarrow> read_buffer ops c ec =
            (c\<lparr>m_source := snd (src_read ops (m_buffer_length c) (m_source c)),
               m_buffer := fst (src_read ops (m_buffer_length c) (m_source c)),
               m_parser := p_update ops (fst (src_read ops (m_buffer_length c) (m_source c))) (m_parser c)\<rparr>, ec))
   \<and> (\<not> m_begin c \<and> next_ec ops n c ec = Some (c', ec') \<longrightarrow> \<not> m_begin c')
   \<and> (\<not> m_begin c \<and> read_to_ec ops n v c ec s = Some (c', ec', s') \<longrightarrow> \<not> m_begin c')
   \<and> (\<not> m_begin c \<and> check_done_ec ops n c ec = Some (c', ec') \<longrightarrow> \<not> m_begin c')
   \<and> (\<not> m_begin c \<longrightarrow> \<not> m_begin (reserve_state (set_buffer_length ops k c)))"
proof -
  have 1: "\<not> m_begin c \<Longrightarrow> next_ec ops n c ec = Some (c', ec') \<Longrightarrow> \<not> m_begin c'"
    by (rule next_ec_invariant[where I = "\<lambda>c. \<not> m_begin c"]) (simp_all add: read_buffer_begin_False)
  have 2: "\<not> m_begin c \<Longrightarrow> read_to_ec ops n v c ec s = Some (c', ec', s') \<Longrightarrow> \<not> m_begin c'"
    by (rule read_to_ec_invariant[where I = "\<lambda>c. \<not> m_begin c"]) (simp_all add: read_buffer_begin_False)
  have 3: "\<not> m_begin c \<Longrightarrow> check_done_ec ops n c ec = Some (c', ec') \<Longrightarrow> \<not> m_begin c'"
    by (rule check_done_ec_invariant[where I = "\<lambda>c. \<not> m_begin c"]) (simp_all add: read_buffer_begin_False)
  have 4: "(m_begin c \<and> fst (src_read ops (m_buffer_length c) (m_source c)) \<noteq> []
      \<and> snd (skip_bom ops (fst (src_read ops (m_buffer_length c) (m_source c)))) = None
      \<longrightarrow> \<not> m_begin (fst (read_buffer ops c ec)))"
    by (auto simp: read_buffer_def Let_def split: prod.splits option.splits)
  have 5: "(m_begin c \<and> fst (src_read ops (m_buffer_length c) (m_source c)) \<noteq> []
      \<and> snd (skip_bom ops (fst (src_read ops (m_buffer_length c) (m_source c)))) = Some e
      \<longrightarrow> read_buffer ops c ec =
            (c\<lparr>m_source := snd (src_read ops (m_buffer_length c) (m_source c)),
               m_buffer := fst (src_read ops (m_buffer_length c) (m_source c))\<rparr>, Some e))"
    by (auto simp: read_buffer_def Let_def split: prod.splits option.splits)
  have 6: "(\<not> m_begin c \<and> fst (src_read ops (m_buffer_length c) (m_source c)) \<noteq> []
      \<longrightarrow> read_buffer ops c ec =
            (c\<lparr>m_source := snd (src_read ops (m_buffer_length c) (m_source c)),
               m_buffer := fst (src_read ops (m_buffer_length c) (m_source c)),
               m_parser := p_update ops (fst (src_read ops (m_buffer_length c) (m_source c))) (m_parser c)\<rparr>, ec))"
    by (auto simp: read_buffer_def Let_def split: prod.splits option.splits)
  show ?thesis
    using 1 2 3 4 5 6 read_buffer_begin_False[of c ops ec] by (simp add: set_buffer_length_def Let_def)
qed

theorem begin_flag_cleared_by_successful_scan_witness:
  "m_begin example_stream
   \<and> fst (src_read toy_ops (m_buffer_length example_stream) (m_source example_stream)) \<noteq> []
   \<and> snd (skip_bom toy_ops (fst (src_read toy_ops (m_buffer_length example_stream) (m_source example_stream)))) = None
   \<and> \<not> m_begin (fst (read_buffer toy_ops example_stream None))
   \<and> m_begin example_utf16_stream
   \<and> snd (skip_bom toy_ops (fst (src_read toy_ops (m_buffer_length example_utf16_stream) (m_source example_utf16_stream))))
        = Some (encoding_error 1)
   \<and> read_buffer toy_ops example_utf16_stream None =
        (example_utf16_stream\<lparr>m_source := ([], True), m_buffer := [255, 254, 55]\<rparr>, Some (encoding_error 1))
   \<and> \<not> m_begin example_primed
   \<and> next_ec toy_ops 3 example_primed None =
        Some (example_primed\<lparr>m_parser := \<lparr>rest = [32, 56, 93], running = False, state = Inside 0\<rparr>,
                             m_cursor_visitor := Scalar 55\<rparr>, None)
   \<and> \<not> m_begin (example_primed\<lparr>m_parser := \<lparr>rest = [32, 56, 93], running = False, state = Inside 0\<rparr>,
                                m_cursor_visitor := Scalar 55\<rparr>)"
  using begin_flag_cleared_by_successful_scan[where c = example_stream and ops = toy_ops and ec = None]
    begin_flag_cleared_by_successful_scan[where c = example_utf16_stream and ops = toy_ops and ec = None
      and e = "encoding_error 1"]
    begin_flag_cleared_by_successful_scan[where c = example_primed and ops = toy_ops and ec = None and n = 3
      and c' = "example_primed\<lparr>m_parser := \<lparr>rest = [32, 56, 93], running = False, state = Inside 0\<rparr>,
                             m_cursor_visitor := Scalar 55\<rparr>" and ec' = None]
    example_primed_next
  by (simp add: example_stream_def example_utf16_stream_def example_primed_def stream_init_def toy_ops_def
      list_read_def bom_scan_def default_max_buffer_length_def)


subsection \<open>The stepping loop\<close>

text \<open>
  Claim C3, as stated, fails: the loop of \<^verbatim>\<open>read_next\<close> tests only \<^verbatim>\<open>parser_.stopped()\<close>,
  not \<^verbatim>\<open>done()\<close>. On a cursor whose tokenizer is done, \<^verbatim>\<open>next\<close> restarts the tokenizer
  and runs the body once (here the tokenizer comes back stopped); a loop that also tested
  \<^verbatim>\<open>done()\<close> would not run its body and would leave the tokenizer restarted.
\<close>

theorem next_runs_body_when_done_not_stopped:
  "next_ec toy_ops 2 example_done None = Some (example_done, None)
   \<and> advance_spec toy_ops 2 example_done None =
        Some (example_done\<lparr>m_parser := \<lparr>rest = [], running = True, state = Done\<rparr>\<rparr>, None)
   \<and> next_ec toy_ops 2 example_done None \<noteq> advance_spec toy_ops 2 example_done None"
  by (simp add: cursor_eval toy_eval example_done_def advance_spec_def numeral_2_eq_2 cong: prod.case_cong_weak option.case_cong_weak)


text \<open>
  Claim C3, amended. \<^verbatim>\<open>next\<close> resets the tokenizer's stop condition and then repeats while
  the tokenizer is not stopped, whether or not it is done. One iteration: if the
  tokenizer's input is exhausted, refill when the source is not at end of file and set
  the end-of-file flag otherwise; an error code left by the refill ends the loop at once,
  before the tokenizer runs; otherwise the tokenizer runs against the event cache, and an
  error code it leaves ends the loop at once. A call that starts with a zero code ends
  with an error code or with the tokenizer stopped.
\<close>

theorem next_loops_until_stopped:
  "next_ec ops n c ec = read_next_loop ops n (c\<lparr>m_parser := p_restart ops (m_parser c)\<rparr>) ec
   \<and> (p_stopped ops (m_parser c) \<longrightarrow> read_next_loop ops (Suc n) c ec = Some (c, ec))
   \<and> (\<not> p_stopped ops (m_parser c) \<and> refill_failed ops c ec \<longrightarrow>
        read_next_loop ops (Suc n) c ec = Some (read_buffer ops c ec))
   \<and> (\<not> p_stopped ops (m_parser c) \<and> \<not> refill_failed ops c ec
        \<and> deliver (p_parse_some ops (m_parser (fst (refill_block ops c ec)))) (staj_visit ops)
             (m_cursor_visitor (fst (refill_block ops c ec))) = (p', e, cv') \<longrightarrow>
        read_next_loop ops (Suc n) c ec =
          (if set_ec e (snd (refill_block ops c ec)) \<noteq> None
           then Some ((fst (refill_block ops c ec))\<lparr>m_parser := p', m_cursor_visitor := cv'\<rparr>,
                      set_ec e (snd (refill_block ops c ec)))
           else read_next_loop ops n
                  ((fst (refill_block ops c ec))\<lparr>m_parser := p', m_cursor_visitor := cv'\<rparr>) None))
   \<and> refill_block ops c ec =
        (if p_source_exhausted ops (m_parser c)
         then (if \<not> src_eof ops (m_source c) then read_buffer ops c ec else (c\<lparr>m_eof := True\<rparr>, ec))
         else (c, ec))
   \<and> (refill_failed ops c ec \<longleftrightarrow>
        p_source_exhausted ops (m_parser c) \<and> \<not> src_eof ops (m_source c) \<and> snd (read_buffer ops c ec) \<noteq> None)
   \<and> (next_ec ops n c None = Some (c', ec') \<longrightarrow> ec' \<noteq> None \<or> p_stopped ops (m_parser c'))"
proof -
  have post: "next_ec ops n c None = Some (c', ec') \<longrightarrow> ec' \<noteq> None \<or> p_stopped ops (m_parser c')"
    using read_next_loop_post[of ops n "c\<lparr>m_parser := p_restart ops (m_parser c)\<rparr>" None c' ec']
    by (simp add: next_ec_def read_next_def)
  have fail: "\<not> p_stopped ops (m_parser c) \<and> refill_failed ops c ec \<longrightarrow>
        read_next_loop ops (Suc n) c ec = Some (read_buffer ops c ec)"
    by (simp add: read_next_loop_Suc refill_failed_def refill_block_def del: read_next_loop.simps)
  have go: "\<not> p_stopped ops (m_parser c) \<and> \<not> refill_failed ops c ec
        \<and> deliver (p_parse_some ops (m_parser (fst (refill_block ops c ec)))) (staj_visit ops)
             (m_cursor_visitor (fst (refill_block ops c ec))) = (p', e, cv') \<longrightarrow>
        read_next_loop ops (Suc n) c ec =
          (if set_ec e (snd (refill_block ops c ec)) \<noteq> None
           then Some ((fst (refill_block ops c ec))\<lparr>m_parser := p', m_cursor_visitor := cv'\<rparr>,
                      set_ec e (snd (refill_block ops c ec)))
           else read_next_loop ops n
                  ((fst (refill_block ops c ec))\<lparr>m_parser := p', m_cursor_visitor := cv'\<rparr>) None)"
    by (auto simp add: read_next_loop_Suc simp del: read_next_loop.simps)
  have start: "next_ec ops n c ec = read_next_loop ops n (c\<lparr>m_parser := p_restart ops (m_parser c)\<rparr>) ec"
    by (simp add: next_ec_def read_next_def)
  have stop: "p_stopped ops (m_parser c) \<longrightarrow> read_next_loop ops (Suc n) c ec = Some (c, ec)"
    by simp
  have rb: "refill_block ops c ec =
        (if p_source_exhausted ops (m_parser c)
         then (if \<not> src_eof ops (m_source c) then read_buffer ops c ec else (c\<lparr>m_eof := True\<rparr>, ec))
         else (c, ec))"
    by (simp add: refill_block_def)
  have rf: "refill_failed ops c ec \<longleftrightarrow>
        p_source_exhausted ops (m_parser c) \<and> \<not> src_eof ops (m_source c) \<and> snd (read_buffer ops c ec) \<noteq> None"
    by (simp add: refill_failed_def)
  show ?thesis
    using start stop fail go rb rf post by - (intro conjI, assumption+)
qed


theorem next_loops_until_stopped_witness:
  "p_stopped toy_ops (m_parser example_primed)
   \<and> read_next_loop toy_ops (Suc 0) example_primed None = Some (example_primed, None)
   \<and> \<not> p_stopped toy_ops (m_parser example_utf16_stream)
   \<and> refill_failed toy_ops example_utf16_stream None
   \<and> read_next_loop toy_ops (Suc 0) example_utf16_stream None =
        Some (example_utf16_stream\<lparr>m_source := ([], True), m_buffer := [255, 254, 55]\<rparr>, Some (encoding_error 1))
   \<and> next_ec toy_ops 3 example_primed None =
        Some (example_primed\<lparr>m_parser := \<lparr>rest = [32, 56, 93], running = False, state = Inside 0\<rparr>,
                             m_cursor_visitor := Scalar 55\<rparr>, None)
   \<and> p_stopped toy_ops (m_parser (example_primed\<lparr>m_parser := \<lparr>rest = [32, 56, 93], running = False, state = Inside 0\<rparr>,
                             m_cursor_visitor := Scalar 55\<rparr>))"
  using next_loops_until_stopped[where ops = toy_ops and c = example_primed and ec = None and n = 0]
    next_loops_until_stopped[where ops = toy_ops and c = example_utf16_stream and ec = None and n = 0]
    next_loops_until_stopped[where ops = toy_ops and c = example_primed and n = 3 and ec' = None and
      c' = "example_primed\<lparr>m_parser := \<lparr>rest = [32, 56, 93], running = False, state = Inside 0\<rparr>,
                             m_cursor_visitor := Scalar 55\<rparr>"]
    example_primed_next
  by (simp add: toy_eval cursor_eval example_primed_def example_utf16_stream_def del: read_next_loop.simps)


subsection \<open>Push mode\<close>

text \<open>
  Claim C6, as stated, fails: \<^verbatim>\<open>read_to\<close> runs the stepping loop only if the visitor
  answered the replayed event with \<^verbatim>\<open>true\<close>. With a visitor that asks to stop, the call
  returns after the replay and the tokenizer is not touched, where replay followed by the
  loop would have delivered the next event as well.
\<close>

theorem read_to_skips_loop_when_visitor_stops:
  "read_to_ec toy_ops 3 stopper example_primed None [] = Some (example_primed, None, [BeginArray])
   \<and> drain_to_spec toy_ops 3 stopper example_primed None [] =
       Some (example_primed\<lparr>m_parser := \<lparr>rest = [32, 56, 93], running = False, state = Inside 0\<rparr>\<rparr>,
             None, [BeginArray, Scalar 55])"
  by (simp add: cursor_eval toy_eval example_primed_def drain_to_spec_def stopper_def cong: prod.case_cong_weak option.case_cong_weak)


text \<open>
  Claim C6, amended. \<^verbatim>\<open>read_to\<close> first replays the cached event into the visitor; if the
  visitor answers \<^verbatim>\<open>true\<close> it then runs the stepping loop with the visitor as the sink,
  and otherwise it returns at once. The loop is the one of \<^verbatim>\<open>next\<close>: \<^verbatim>\<open>next\<close> is that loop
  run with the event cache as its visitor. During \<^verbatim>\<open>read_to\<close> the event cache receives
  nothing (the current event is unchanged), and a recording visitor's log grows by the
  cached event followed by the events of the loop.
\<close>

theorem read_to_replays_then_steps:
  "(fst (v (current c) s) \<longrightarrow>
      read_to_ec ops n v c ec s = read_next_visitor ops n v c ec (snd (v (current c) s)))
   \<and> (\<not> fst (v (current c) s) \<longrightarrow> read_to_ec ops n v c ec s = Some (c, ec, snd (v (current c) s)))
   \<and> next_ec ops n c ec =
        map_option (\<lambda>(c', ec', s'). (c'\<lparr>m_cursor_visitor := s'\<rparr>, ec'))
          (read_next_visitor ops n (staj_visit ops) c ec (m_cursor_visitor c))
   \<and> (read_to_ec ops n v c ec s = Some (c', ec', s') \<longrightarrow> current c' = current c)
   \<and> (read_to_ec ops n recorder c ec log = Some (c', ec', log') \<longrightarrow> (\<exists>r. log' = log @ current c # r))"
proof -
  have 1: "next_ec ops n c ec =
        map_option (\<lambda>(c', ec', s'). (c'\<lparr>m_cursor_visitor := s'\<rparr>, ec'))
          (read_next_visitor ops n (staj_visit ops) c ec (m_cursor_visitor c))"
    using read_next_loop_as_visitor_loop[of ops n "m_cursor_visitor c" "c\<lparr>m_parser := p_restart ops (m_parser c)\<rparr>" ec]
    by (simp add: next_ec_def read_next_def read_next_visitor_def)
  have 2: "read_to_ec ops n v c ec s = Some (c', ec', s') \<longrightarrow> current c' = current c"
  proof
    assume a: "read_to_ec ops n v c ec s = Some (c', ec', s')"
    have "(\<lambda>x. m_cursor_visitor x = m_cursor_visitor c) c'"
      by (rule read_to_ec_invariant[where I = "\<lambda>x. m_cursor_visitor x = m_cursor_visitor c" and ops = ops, OF _ _ _ _ a])
         (simp_all add: read_buffer_def Let_def split: prod.splits option.splits)
    then show "current c' = current c" by (simp add: current_def)
  qed
  have 3: "read_to_ec ops n recorder c ec log = Some (c', ec', log') \<longrightarrow> (\<exists>r. log' = log @ current c # r)"
  proof
    assume "read_to_ec ops n recorder c ec log = Some (c', ec', log')"
    then have "read_next_visitor_loop ops n recorder (c\<lparr>m_parser := p_restart ops (m_parser c)\<rparr>) ec
        (log @ [current c]) = Some (c', ec', log')"
      by (simp add: read_to_ec_def staj_to_saj_event_def recorder_def read_next_visitor_def current_def)
    from read_next_visitor_loop_recorder_appends[OF this] obtain r where "log' = (log @ [current c]) @ r"
      by blast
    then show "\<exists>r. log' = log @ current c # r" by simp
  qed
  show ?thesis
    using 1 2 3 by (auto simp: read_to_ec_def staj_to_saj_event_def current_def split: prod.splits)
qed


theorem read_to_replays_then_steps_witness:
  "fst (recorder (current example_primed) [])
   \<and> read_to_ec toy_ops 10 recorder example_primed None [] =
       Some (example_primed\<lparr>m_parser := \<lparr>rest = [], running = False, state = Done\<rparr>, m_eof := True\<rparr>,
             None, [BeginArray, Scalar 55, Scalar 56, EndArray])
   \<and> current (example_primed\<lparr>m_parser := \<lparr>rest = [], running = False, state = Done\<rparr>, m_eof := True\<rparr>)
       = current example_primed
   \<and> \<not> fst (stopper (current example_primed) [])
   \<and> read_to_ec toy_ops 10 stopper example_primed None [] = Some (example_primed, None, [BeginArray])"
  using read_to_replays_then_steps[where ops = toy_ops and v = recorder and c = example_primed and s = "[]" and n = 10 and ec = None
      and log = "[]" and ec' = None and log' = "[BeginArray, Scalar 55, Scalar 56, EndArray]" and s' = "[BeginArray, Scalar 55, Scalar 56, EndArray]"
      and c' = "example_primed\<lparr>m_parser := \<lparr>rest = [], running = False, state = Done\<rparr>, m_eof := True\<rparr>"]
    read_to_replays_then_steps[where ops = toy_ops and v = stopper and c = example_primed and s = "[]" and n = 10 and ec = None]
    example_primed_read_to
  by (simp add: recorder_def stopper_def current_def example_primed_def)


subsection \<open>The completion check\<close>

text \<open>
  Claim C7. \<^verbatim>\<open>check_done\<close> returns \<^verbatim>\<open>source_error\<close> at once when the source reports an
  error. With the end-of-file flag set it is the tokenizer's own check. Otherwise it
  loops until the flag is set. One turn of the loop, from a zero error code:
  \<^item> the tokenizer's input is exhausted and the source is at end of file: the flag is set
    and the call returns;
  \<^item> the input is exhausted and the source returns nothing: the flag is set and the call
    returns;
  \<^item> the input is exhausted and the source returns a chunk: the chunk replaces the buffer
    and is handed to the tokenizer, which validates it; a failure ends the call with the
    tokenizer's error, otherwise the loop goes on (a malformed encoding mark in a first
    chunk ends the call with the encoding error);
  \<^item> buffered input remains: the tokenizer validates it, with the same two outcomes.

  For a tokenizer whose check satisfies \<open>tokenizer_checks\<close>, the list source and a cursor that
  has read its first value, the call returns for every large enough fuel: with success when
  all that is left, in the tokenizer and in the source, is white space, and with the
  tokenizer's error for extra content otherwise. A call that starts with a zero code ends
  with an error code or with the flag set.
\<close>

theorem check_done_validates_remaining_input:
  "(src_is_error ops (m_source c) \<longrightarrow> check_done_ec ops n c ec = Some (c, Some source_error))
   \<and> (\<not> src_is_error ops (m_source c) \<and> m_eof c \<longrightarrow>
        check_done_ec ops n c ec =
          Some (c\<lparr>m_parser := fst (p_check_done ops (m_parser c))\<rparr>,
                set_ec (snd (p_check_done ops (m_parser c))) ec))
   \<and> (\<not> src_is_error ops (m_source c) \<and> \<not> m_eof c \<longrightarrow>
        check_done_ec ops n c ec = check_done_loop ops n c ec)
   \<and> (m_eof c \<longrightarrow> check_done_loop ops (Suc n) c ec = Some (c, ec))
   \<and> (\<not> m_eof c \<and> p_source_exhausted ops (m_parser c) \<and> src_eof ops (m_source c) \<longrightarrow>
        check_done_loop ops (Suc (Suc n)) c None = Some (c\<lparr>m_eof := True\<rparr>, None))
   \<and> (\<not> m_eof c \<and> p_source_exhausted ops (m_parser c) \<and> \<not> src_eof ops (m_source c)
        \<and> src_read ops (m_buffer_length c) (m_source c) = ([], src') \<longrightarrow>
        check_done_loop ops (Suc (Suc n)) c None =
          Some (c\<lparr>m_source := src', m_buffer := [], m_eof := True\<rparr>, None))
   \<and> (\<not> m_eof c \<and> p_source_exhausted ops (m_parser c) \<and> \<not> src_eof ops (m_source c)
        \<and> src_read ops (m_buffer_length c) (m_source c) = (chunk, src') \<and> chunk \<noteq> [] \<and> \<not> m_begin c
        \<and> p_check_done ops (p_update ops chunk (m_parser c)) = (p', e) \<longrightarrow>
        check_done_loop ops (Suc n) c None =
          (case e of
             Some x \<Rightarrow> Some (c\<lparr>m_source := src', m_buffer := chunk, m_parser := p'\<rparr>, Some x)
           | None \<Rightarrow> check_done_loop ops n (c\<lparr>m_source := src', m_buffer := chunk, m_parser := p'\<rparr>) None))
   \<and> (\<not> m_eof c \<and> p_source_exhausted ops (m_parser c) \<and> \<not> src_eof ops (m_source c)
        \<and> src_read ops (m_buffer_length c) (m_source c) = (chunk, src') \<and> chunk \<noteq> [] \<and> m_begin c
        \<and> skip_bom ops chunk = (k, Some x) \<longrightarrow>
        check_done_loop ops (Suc n) c None = Some (c\<lparr>m_source := src', m_buffer := chunk\<rparr>, Some x))
   \<and> (\<not> m_eof c \<and> \<not> p_source_exhausted ops (m_parser c) \<and> p_check_done ops (m_parser c) = (p', e) \<longrightarrow>
        check_done_loop ops (Suc n) c None =
          (case e of
             Some x \<Rightarrow> Some (c\<lparr>m_parser := p'\<rparr>, Some x)
           | None \<Rightarrow> check_done_loop ops n (c\<lparr>m_parser := p'\<rparr>) None))
   \<and> (tokenizer_checks ops pending blank terminal extra \<and> reads_from_list ops
        \<and> \<not> src_is_error ops (m_source c) \<and> \<not> m_begin c
        \<and> (0 < m_buffer_length c \<or> fst (m_source c) = [])
        \<and> (m_eof c \<or> snd (m_source c) \<longrightarrow> fst (m_source c) = [])
        \<and> terminal (m_parser c) \<longrightarrow>
        (\<exists>N. \<forall>j. N \<le> j \<longrightarrow>
           (\<exists>cf. check_done_ec ops j c None =
                   Some (cf, if list_all blank (pending (m_parser c) @ fst (m_source c)) then None
                             else Some extra))))
   \<and> (check_done_ec ops n c None = Some (c', ec') \<longrightarrow> ec' \<noteq> None \<or> m_eof c')"
proof -
  have post: "check_done_ec ops n c None = Some (c', ec') \<longrightarrow> ec' \<noteq> None \<or> m_eof c'"
    using check_done_loop_post[of ops n c None c' ec']
    by (auto simp: check_done_ec_def split: if_splits prod.splits)
  have first: "(src_is_error ops (m_source c) \<longrightarrow> check_done_ec ops n c ec = Some (c, Some source_error))
   \<and> (\<not> src_is_error ops (m_source c) \<and> m_eof c \<longrightarrow>
        check_done_ec ops n c ec =
          Some (c\<lparr>m_parser := fst (p_check_done ops (m_parser c))\<rparr>,
                set_ec (snd (p_check_done ops (m_parser c))) ec))
   \<and> (\<not> src_is_error ops (m_source c) \<and> \<not> m_eof c \<longrightarrow>
        check_done_ec ops n c ec = check_done_loop ops n c ec)"
    by (simp add: check_done_ec_def split: prod.splits)
  have stop: "m_eof c \<longrightarrow> check_done_loop ops (Suc n) c ec = Some (c, ec)"
    by simp
  have total: "\<exists>N. \<forall>j. N \<le> j \<longrightarrow>
           (\<exists>cf. check_done_ec ops j c None =
                   Some (cf, if list_all blank (pending (m_parser c) @ fst (m_source c)) then None
                             else Some extra))"
    if h: "tokenizer_checks ops pending blank terminal extra \<and> reads_from_list ops
        \<and> \<not> src_is_error ops (m_source c) \<and> \<not> m_begin c
        \<and> (0 < m_buffer_length c \<or> fst (m_source c) = [])
        \<and> (m_eof c \<or> snd (m_source c) \<longrightarrow> fst (m_source c) = [])
        \<and> terminal (m_parser c)"
  proof (cases "m_eof c")
    case True
    with h have d: "fst (m_source c) = []" by simp
    have "check_done_ec ops j c None =
        Some (c\<lparr>m_parser := fst (p_check_done ops (m_parser c))\<rparr>,
              if list_all blank (pending (m_parser c) @ fst (m_source c)) then None else Some extra)" for j
    proof (cases "list_all blank (pending (m_parser c))")
      case b: True
      with h checks_blank[of ops pending blank terminal extra "m_parser c"]
      have "snd (p_check_done ops (m_parser c)) = None" by simp
      with True h d b show ?thesis
        by (auto simp add: check_done_ec_def set_ec_def split: prod.splits)
    next
      case b: False
      with h checks_extra[of ops pending blank terminal extra "m_parser c"]
      have "snd (p_check_done ops (m_parser c)) = Some extra" by simp
      with True h d b show ?thesis
        by (auto simp add: check_done_ec_def set_ec_def split: prod.splits)
    qed
    then show ?thesis by blast
  next
    case False
    from h have ck: "tokenizer_checks ops pending blank terminal extra" and src: "reads_from_list ops"
      by simp_all
    from check_done_loop_total[OF ck src False] h
    obtain N where "\<forall>k. N \<le> k \<longrightarrow>
          (\<exists>c'. check_done_loop ops k c None =
                  Some (c', if list_all blank (pending (m_parser c) @ fst (m_source c)) then None else Some extra)
                \<and> (list_all blank (pending (m_parser c) @ fst (m_source c)) \<longrightarrow> m_eof c'))"
      by auto
    moreover have "check_done_ec ops j c None = check_done_loop ops j c None" for j
      using False h by (simp add: check_done_ec_def)
    ultimately show ?thesis by metis
  qed
  from first have f1: "src_is_error ops (m_source c) \<longrightarrow> check_done_ec ops n c ec = Some (c, Some source_error)"
    and f2: "\<not> src_is_error ops (m_source c) \<and> m_eof c \<longrightarrow>
        check_done_ec ops n c ec =
          Some (c\<lparr>m_parser := fst (p_check_done ops (m_parser c))\<rparr>,
                set_ec (snd (p_check_done ops (m_parser c))) ec)"
    and f3: "\<not> src_is_error ops (m_source c) \<and> \<not> m_eof c \<longrightarrow>
        check_done_ec ops n c ec = check_done_loop ops n c ec"
    by blast+
  note r = check_done_loop_refill[of c ops n src' chunk p' e k x]
  from r have r1: "\<not> m_eof c \<and> p_source_exhausted ops (m_parser c) \<and> src_eof ops (m_source c) \<longrightarrow>
        check_done_loop ops (Suc (Suc n)) c None = Some (c\<lparr>m_eof := True\<rparr>, None)"
    by (rule conjunct1)
  from r have r2: "\<not> m_eof c \<and> p_source_exhausted ops (m_parser c) \<and> \<not> src_eof ops (m_source c)
        \<and> src_read ops (m_buffer_length c) (m_source c) = ([], src') \<longrightarrow>
        check_done_loop ops (Suc (Suc n)) c None =
          Some (c\<lparr>m_source := src', m_buffer := [], m_eof := True\<rparr>, None)"
    by (elim conjE)
  from r have r3: "\<not> m_eof c \<and> p_source_exhausted ops (m_parser c) \<and> \<not> src_eof ops (m_source c)
        \<and> src_read ops (m_buffer_length c) (m_source c) = (chunk, src') \<and> chunk \<noteq> [] \<and> \<not> m_begin c
        \<and> p_check_done ops (p_update ops chunk (m_parser c)) = (p', e) \<longrightarrow>
        check_done_loop ops (Suc n) c None =
          (case e of
             Some x \<Rightarrow> Some (c\<lparr>m_source := src', m_buffer := chunk, m_parser := p'\<rparr>, Some x)
           | None \<Rightarrow> check_done_loop ops n (c\<lparr>m_source := src', m_buffer := chunk, m_parser := p'\<rparr>) None)"
    by (elim conjE)
  from r have r4: "\<not> m_eof c \<and> p_source_exhausted ops (m_parser c) \<and> \<not> src_eof ops (m_source c)
        \<and> src_read ops (m_buffer_length c) (m_source c) = (chunk, src') \<and> chunk \<noteq> [] \<and> m_begin c
        \<and> skip_bom ops chunk = (k, Some x) \<longrightarrow>
        check_done_loop ops (Suc n) c None = Some (c\<lparr>m_source := src', m_buffer := chunk\<rparr>, Some x)"
    by (elim conjE)
  from r have r5: "\<not> m_eof c \<and> \<not> p_source_exhausted ops (m_parser c) \<and> p_check_done ops (m_parser c) = (p', e) \<longrightarrow>
        check_done_loop ops (Suc n) c None =
          (case e of
             Some x \<Rightarrow> Some (c\<lparr>m_parser := p'\<rparr>, Some x)
           | None \<Rightarrow> check_done_loop ops n (c\<lparr>m_parser := p'\<rparr>) None)"
    by (elim conjE)
  from total have t: "tokenizer_checks ops pending blank terminal extra \<and> reads_from_list ops
        \<and> \<not> src_is_error ops (m_source c) \<and> \<not> m_begin c
        \<and> (0 < m_buffer_length c \<or> fst (m_source c) = [])
        \<and> (m_eof c \<or> snd (m_source c) \<longrightarrow> fst (m_source c) = [])
        \<and> terminal (m_parser c) \<longrightarrow>
        (\<exists>N. \<forall>j. N \<le> j \<longrightarrow>
           (\<exists>cf. check_done_ec ops j c None =
                   Some (cf, if list_all blank (pending (m_parser c) @ fst (m_source c)) then None
                             else Some extra)))"
    by (rule impI)
  show ?thesis
    using f1 f2 f3 stop r1 r2 r3 r4 r5 t post by - (intro conjI, assumption+)
qed

theorem check_done_validates_remaining_input_witness:
  "tokenizer_checks toy_ops rest (\<lambda>x. x = 32) (\<lambda>p. state p = Accept \<or> state p = Done) (parse_error 3)
   \<and> reads_from_list toy_ops
   \<and> pull_events toy_ops 5 (fst (the (yaml_cursor_stream_ec toy_ops 5 (55 # padding @ [32, 56], False) None)))
        = Some ([Scalar 55], example_long_value, None)
   \<and> pull_events toy_ops 5 (fst (the (yaml_cursor_stream_ec toy_ops 5 (55 # padding @ [32, 32], False) None)))
        = Some ([Scalar 55], example_long_space, None)
   \<and> \<not> src_is_error toy_ops (m_source example_long_value) \<and> \<not> m_begin example_long_value
   \<and> 0 < m_buffer_length example_long_value \<and> \<not> m_eof example_long_value
   \<and> \<not> snd (m_source example_long_value) \<and> state (m_parser example_long_value) = Done
   \<and> \<not> list_all (\<lambda>x. x = 32) (rest (m_parser example_long_value) @ fst (m_source example_long_value))
   \<and> (\<exists>j cf. check_done_ec toy_ops j example_long_value None = Some (cf, Some (parse_error 3)))
   \<and> check_done_ec toy_ops 5 example_long_value None =
        Some (example_long_value\<lparr>m_source := ([], True), m_buffer := [32, 56],
                m_parser := \<lparr>rest = [56], running = False, state = Done\<rparr>\<rparr>, Some (parse_error 3))
   \<and> \<not> src_is_error toy_ops (m_source example_long_space) \<and> \<not> m_begin example_long_space
   \<and> 0 < m_buffer_length example_long_space \<and> \<not> m_eof example_long_space
   \<and> \<not> snd (m_source example_long_space) \<and> state (m_parser example_long_space) = Done
   \<and> list_all (\<lambda>x. x = 32) (rest (m_parser example_long_space) @ fst (m_source example_long_space))
   \<and> (\<exists>j cf. check_done_ec toy_ops j example_long_space None = Some (cf, None))
   \<and> check_done_ec toy_ops 5 example_long_space None =
        Some (example_long_space\<lparr>m_source := ([], True), m_buffer := [32, 32],
                m_parser := \<lparr>rest = [], running = False, state = Done\<rparr>, m_eof := True\<rparr>, None)
   \<and> p_source_exhausted toy_ops \<lparr>rest = [], running = False, state = Done\<rparr>
   \<and> \<not> src_eof toy_ops (m_source example_long_value)
   \<and> src_read toy_ops (m_buffer_length example_long_value) (m_source example_long_value) = ([32, 56], ([], True))
   \<and> p_check_done toy_ops (p_update toy_ops [32, 56] \<lparr>rest = [], running = False, state = Done\<rparr>) =
        (\<lparr>rest = [56], running = False, state = Done\<rparr>, Some (parse_error 3))
   \<and> check_done_loop toy_ops (Suc 0)
        (example_long_value\<lparr>m_parser := \<lparr>rest = [], running = False, state = Done\<rparr>\<rparr>) None =
        Some (example_long_value\<lparr>m_source := ([], True), m_buffer := [32, 56],
                m_parser := \<lparr>rest = [56], running = False, state = Done\<rparr>\<rparr>, Some (parse_error 3))
   \<and> \<not> p_source_exhausted toy_ops (m_parser example_long_value)
   \<and> p_check_done toy_ops (m_parser example_long_value) = (\<lparr>rest = [], running = False, state = Done\<rparr>, None)
   \<and> check_done_loop toy_ops (Suc (Suc 0)) example_long_value None =
        check_done_loop toy_ops (Suc 0)
          (example_long_value\<lparr>m_parser := \<lparr>rest = [], running = False, state = Done\<rparr>\<rparr>) None
   \<and> src_eof toy_ops ([], True)
   \<and> check_done_loop toy_ops (Suc (Suc 0))
        (example_long_space\<lparr>m_source := ([], True), m_buffer := [32, 32],
           m_parser := \<lparr>rest = [], running = False, state = Done\<rparr>\<rparr>) None =
        Some (example_long_space\<lparr>m_source := ([], True), m_buffer := [32, 32],
                m_parser := \<lparr>rest = [], running = False, state = Done\<rparr>, m_eof := True\<rparr>, None)
   \<and> \<not> src_eof toy_ops ([], False)
   \<and> src_read toy_ops (m_buffer_length example_long_space) ([], False) = ([], ([], True))
   \<and> check_done_loop toy_ops (Suc (Suc 0))
        (example_long_space\<lparr>m_source := ([], False),
           m_parser := \<lparr>rest = [], running = False, state = Done\<rparr>\<rparr>) None =
        Some (example_long_space\<lparr>m_source := ([], True), m_buffer := [],
                m_parser := \<lparr>rest = [], running = False, state = Done\<rparr>, m_eof := True\<rparr>, None)
   \<and> \<not> m_eof example_utf16_stream \<and> m_begin example_utf16_stream
   \<and> p_source_exhausted toy_ops (m_parser example_utf16_stream)
   \<and> \<not> src_eof toy_ops (m_source example_utf16_stream)
   \<and> src_read toy_ops (m_buffer_length example_utf16_stream) (m_source example_utf16_stream)
        = ([255, 254, 55], ([], True))
   \<and> skip_bom toy_ops [255, 254, 55] = (2, Some (encoding_error 1))
   \<and> check_done_loop toy_ops (Suc 0) example_utf16_stream None =
        Some (example_utf16_stream\<lparr>m_source := ([], True), m_buffer := [255, 254, 55]\<rparr>,
              Some (encoding_error 1))
   \<and> src_is_error (toy_ops\<lparr>src_is_error := \<lambda>src. True\<rparr>) (m_source example_done)
   \<and> check_done_ec (toy_ops\<lparr>src_is_error := \<lambda>src. True\<rparr>) 3 example_done None =
        Some (example_done, Some source_error)
   \<and> \<not> src_is_error toy_ops (m_source example_done) \<and> m_eof example_done
   \<and> check_done_ec toy_ops 0 example_done None = Some (example_done, None)"
proof -
  let ?blank = "\<lambda>x::nat. x = 32"
  let ?terminal = "\<lambda>p. state p = Accept \<or> state p = Done"
  let ?mid = "example_long_value\<lparr>m_parser := \<lparr>rest = [], running = False, state = Done\<rparr>\<rparr>"
  have v: "\<not> src_is_error toy_ops (m_source example_long_value)" "\<not> m_begin example_long_value"
    "0 < m_buffer_length example_long_value" "\<not> m_eof example_long_value"
    "\<not> snd (m_source example_long_value)" "state (m_parser example_long_value) = Done"
    "\<not> list_all ?blank (rest (m_parser example_long_value) @ fst (m_source example_long_value))"
    by (simp_all add: example_long_value_def toy_ops_def padding_facts)
  have w: "\<not> src_is_error toy_ops (m_source example_long_space)" "\<not> m_begin example_long_space"
    "0 < m_buffer_length example_long_space" "\<not> m_eof example_long_space"
    "\<not> snd (m_source example_long_space)" "state (m_parser example_long_space) = Done"
    "list_all ?blank (rest (m_parser example_long_space) @ fst (m_source example_long_space))"
    by (simp_all add: example_long_space_def toy_ops_def padding_facts)
  have m: "p_source_exhausted toy_ops \<lparr>rest = [], running = False, state = Done\<rparr>"
    "\<not> src_eof toy_ops (m_source example_long_value)"
    "src_read toy_ops (m_buffer_length example_long_value) (m_source example_long_value) = ([32, 56], ([], True))"
    "p_check_done toy_ops (p_update toy_ops [32, 56] \<lparr>rest = [], running = False, state = Done\<rparr>) =
        (\<lparr>rest = [56], running = False, state = Done\<rparr>, Some (parse_error 3))"
    by (simp_all add: example_long_value_def toy_ops_def list_read_def)
  have d: "src_is_error (toy_ops\<lparr>src_is_error := \<lambda>src. True\<rparr>) (m_source example_done)"
    "\<not> src_is_error toy_ops (m_source example_done)" "m_eof example_done"
    by (simp_all add: example_done_def toy_ops_def)
  from check_done_validates_remaining_input[where ops = toy_ops and c = example_long_value
      and pending = rest and blank = ?blank and terminal = ?terminal and extra = "parse_error 3", THEN conjunct2, THEN conjunct2, THEN conjunct2, THEN conjunct2, THEN conjunct2, THEN conjunct2, THEN conjunct2, THEN conjunct2, THEN conjunct2, THEN conjunct1]
    toy_checks toy_reads_from_list v
  have "\<exists>N. \<forall>j. N \<le> j \<longrightarrow>
           (\<exists>cf. check_done_ec toy_ops j example_long_value None = Some (cf, Some (parse_error 3)))"
    by (simp del: list_all_append)
  then have e1: "\<exists>j cf. check_done_ec toy_ops j example_long_value None = Some (cf, Some (parse_error 3))"
    by blast
  from check_done_validates_remaining_input[where ops = toy_ops and c = example_long_space
      and pending = rest and blank = ?blank and terminal = ?terminal and extra = "parse_error 3", THEN conjunct2, THEN conjunct2, THEN conjunct2, THEN conjunct2, THEN conjunct2, THEN conjunct2, THEN conjunct2, THEN conjunct2, THEN conjunct2, THEN conjunct1]
    toy_checks toy_reads_from_list w
  have "\<exists>N. \<forall>j. N \<le> j \<longrightarrow>
           (\<exists>cf. check_done_ec toy_ops j example_long_space None = Some (cf, None))"
    by (simp del: list_all_append)
  then have e2: "\<exists>j cf. check_done_ec toy_ops j example_long_space None = Some (cf, None)"
    by blast
  from check_done_validates_remaining_input[where ops = toy_ops and c = ?mid and n = 0
      and chunk = "[32, 56]" and src' = "([], True)"
      and p' = "\<lparr>rest = [56], running = False, state = Done\<rparr>" and e = "Some (parse_error 3)", THEN conjunct2, THEN conjunct2, THEN conjunct2, THEN conjunct2, THEN conjunct2, THEN conjunct2, THEN conjunct1]
    m v
  have e3: "check_done_loop toy_ops (Suc 0) ?mid None =
        Some (example_long_value\<lparr>m_source := ([], True), m_buffer := [32, 56],
                m_parser := \<lparr>rest = [56], running = False, state = Done\<rparr>\<rparr>, Some (parse_error 3))"
    by (simp del: check_done_loop.simps)
  from check_done_validates_remaining_input[where ops = "toy_ops\<lparr>src_is_error := \<lambda>src. True\<rparr>"
      and c = example_done and n = 3 and ec = None, THEN conjunct1] d
  have e4: "check_done_ec (toy_ops\<lparr>src_is_error := \<lambda>src. True\<rparr>) 3 example_done None =
        Some (example_done, Some source_error)"
    by blast
  from check_done_validates_remaining_input[where ops = toy_ops and c = example_done and n = 0 and ec = None, THEN conjunct2, THEN conjunct1] d
  have e5: "check_done_ec toy_ops 0 example_done None = Some (example_done, None)"
    by (simp add: example_done_def toy_ops_def set_ec_def)
  let ?flag = "example_long_space\<lparr>m_source := ([], True), m_buffer := [32, 32],
           m_parser := \<lparr>rest = [], running = False, state = Done\<rparr>\<rparr>"
  let ?dry = "example_long_space\<lparr>m_source := ([], False),
           m_parser := \<lparr>rest = [], running = False, state = Done\<rparr>\<rparr>"
  have g: "\<not> p_source_exhausted toy_ops (m_parser example_long_value)"
    "p_check_done toy_ops (m_parser example_long_value) = (\<lparr>rest = [], running = False, state = Done\<rparr>, None)"
    by (simp_all add: example_long_value_def toy_ops_def padding_facts)
  from check_done_validates_remaining_input[where ops = toy_ops and c = example_long_value and n = "Suc 0"
      and p' = "\<lparr>rest = [], running = False, state = Done\<rparr>" and e = None, THEN conjunct2, THEN conjunct2, THEN conjunct2, THEN conjunct2, THEN conjunct2, THEN conjunct2, THEN conjunct2, THEN conjunct2, THEN conjunct1]
    g v
  have e6: "check_done_loop toy_ops (Suc (Suc 0)) example_long_value None =
        check_done_loop toy_ops (Suc 0) ?mid None"
    by (simp del: check_done_loop.simps)
  have f: "src_eof toy_ops ([], True)" "\<not> src_eof toy_ops ([], False)"
    "src_read toy_ops (m_buffer_length example_long_space) ([], False) = ([], ([], True))"
    by (simp_all add: toy_ops_def list_read_def example_long_space_def)
  from check_done_validates_remaining_input[where ops = toy_ops and c = ?flag and n = 0, THEN conjunct2, THEN conjunct2, THEN conjunct2, THEN conjunct2, THEN conjunct1]
    f w m(1)
  have e7: "check_done_loop toy_ops (Suc (Suc 0)) ?flag None =
        Some (example_long_space\<lparr>m_source := ([], True), m_buffer := [32, 32],
                m_parser := \<lparr>rest = [], running = False, state = Done\<rparr>, m_eof := True\<rparr>, None)"
    by (simp del: check_done_loop.simps)
  from check_done_validates_remaining_input[where ops = toy_ops and c = ?dry and n = 0
      and src' = "([], True)", THEN conjunct2, THEN conjunct2, THEN conjunct2, THEN conjunct2, THEN conjunct2, THEN conjunct1]
    f w m(1)
  have e8: "check_done_loop toy_ops (Suc (Suc 0)) ?dry None =
        Some (example_long_space\<lparr>m_source := ([], True), m_buffer := [],
                m_parser := \<lparr>rest = [], running = False, state = Done\<rparr>, m_eof := True\<rparr>, None)"
    by (simp del: check_done_loop.simps)
  have u: "\<not> m_eof example_utf16_stream" "m_begin example_utf16_stream"
    "p_source_exhausted toy_ops (m_parser example_utf16_stream)"
    "\<not> src_eof toy_ops (m_source example_utf16_stream)"
    "src_read toy_ops (m_buffer_length example_utf16_stream) (m_source example_utf16_stream)
        = ([255, 254, 55], ([], True))"
    "skip_bom toy_ops [255, 254, 55] = (2, Some (encoding_error 1))"
    by (simp_all add: example_utf16_stream_def stream_init_def toy_ops_def list_read_def bom_scan_def
        default_max_buffer_length_def)
  from check_done_validates_remaining_input[where ops = toy_ops and c = example_utf16_stream and n = 0
      and chunk = "[255, 254, 55]" and src' = "([], True)" and k = 2 and x = "encoding_error 1", THEN conjunct2, THEN conjunct2, THEN conjunct2, THEN conjunct2, THEN conjunct2, THEN conjunct2, THEN conjunct2, THEN conjunct1]
    u
  have e9: "check_done_loop toy_ops (Suc 0) example_utf16_stream None =
        Some (example_utf16_stream\<lparr>m_source := ([], True), m_buffer := [255, 254, 55]\<rparr>,
              Some (encoding_error 1))"
    by (simp del: check_done_loop.simps)
  show ?thesis
    using toy_checks toy_reads_from_list example_long_reached v e1 example_long_check w e2 m e3
      g e6 f e7 e8 u e9 d e4 e5
    by - (intro conjI, (assumption | (elim conjE, assumption))+)
qed


subsection \<open>The fixed-slice variant\<close>

text \<open>
  Claim C10. With a source that returns no more than it is asked for, a cursor built by
  a fixed-slice constructor has chunk length 0, an empty buffer and a cleared
  encoding-detection flag, while a cursor built from a stream has chunk length 16384.
  The mark is skipped on the slice itself, by the throwing constructor and by the one that
  sets an error code alike: the parser is handed the slice without its first \<open>k\<close> units,
  \<open>k\<close> being the offset \<^verbatim>\<open>skip_bom\<close> returns, before the first \<^verbatim>\<open>next\<close>, which then runs
  unless the parser is done. When \<^verbatim>\<open>skip_bom\<close> reports an error the constructor stops
  there: the throwing constructor throws \<^verbatim>\<open>ser_error\<close> with that code and the position of
  the untouched parser, the other one returns the code.
\<close>

theorem slice_cursor_has_no_buffer:
  assumes "src_read_bounded ops"
  shows "(yaml_cursor_slice_ec ops n sv ec = Some (c, ec') \<longrightarrow>
            buffer_length c = 0 \<and> m_buffer c = [] \<and> \<not> m_begin c)
   \<and> (yaml_cursor_slice ops n sv = Some (Returned c) \<longrightarrow>
            buffer_length c = 0 \<and> m_buffer c = [] \<and> \<not> m_begin c)
   \<and> (yaml_cursor_stream_ec ops n src ec = Some (c, ec') \<longrightarrow> buffer_length c = 16384)
   \<and> (yaml_cursor_stream ops n src = Some (Returned c) \<longrightarrow> buffer_length c = 16384)
   \<and> (skip_bom ops sv = (k, None) \<longrightarrow>
        yaml_cursor_slice_ec ops n sv ec =
          (if \<not> p_done ops (p_update ops (drop k sv) (p_new ops))
           then next_ec ops n ((slice_init ops)\<lparr>m_parser := p_update ops (drop k sv) (p_new ops)\<rparr>) ec
           else Some ((slice_init ops)\<lparr>m_parser := p_update ops (drop k sv) (p_new ops)\<rparr>, ec)))
   \<and> (skip_bom ops sv = (k, Some e) \<longrightarrow> yaml_cursor_slice_ec ops n sv ec = Some (slice_init ops, Some e))
   \<and> (skip_bom ops sv = (k, None) \<longrightarrow>
        yaml_cursor_slice ops n sv =
          (if \<not> p_done ops (p_update ops (drop k sv) (p_new ops))
           then next_throwing ops n ((slice_init ops)\<lparr>m_parser := p_update ops (drop k sv) (p_new ops)\<rparr>)
           else Some (Returned ((slice_init ops)\<lparr>m_parser := p_update ops (drop k sv) (p_new ops)\<rparr>))))
   \<and> (skip_bom ops sv = (k, Some e) \<longrightarrow>
        yaml_cursor_slice ops n sv =
          Some (Thrown (ser_error e (p_line ops (p_new ops)) (p_column ops (p_new ops))) (slice_init ops)))"
proof -
  have init: "slice_shape (slice_init ops)" "\<And>p. slice_shape ((slice_init ops)\<lparr>m_parser := p\<rparr>)"
    by (simp_all add: slice_shape_def slice_init_def)
  have 1: "yaml_cursor_slice_ec ops n sv ec = Some (c, ec') \<longrightarrow> slice_shape c"
  proof
    assume a: "yaml_cursor_slice_ec ops n sv ec = Some (c, ec')"
    obtain k e where sk: "skip_bom ops sv = (k, e)" by (cases "skip_bom ops sv") auto
    show "slice_shape c"
    proof (cases e)
      case (Some x)
      with a sk init show ?thesis by (simp add: yaml_cursor_slice_ec_def)
    next
      case None
      show ?thesis
      proof (cases "p_done ops (p_update ops (drop k sv) (p_new ops))")
        case True
        with a sk None init show ?thesis
          by (auto simp: yaml_cursor_slice_ec_def cursor_done_def slice_init_def Let_def)
      next
        case False
        with a sk None have "next_ec ops n ((slice_init ops)\<lparr>m_parser := p_update ops (drop k sv) (p_new ops)\<rparr>) ec
            = Some (c, ec')"
          by (simp add: yaml_cursor_slice_ec_def cursor_done_def slice_init_def Let_def)
        from next_ec_slice_shape[OF assms init(2) this] show ?thesis .
      qed
    qed
  qed
  have 2: "yaml_cursor_slice ops n sv = Some (Returned c) \<longrightarrow> slice_shape c"
  proof
    assume a: "yaml_cursor_slice ops n sv = Some (Returned c)"
    obtain k e where sk: "skip_bom ops sv = (k, e)" by (cases "skip_bom ops sv") auto
    show "slice_shape c"
    proof (cases e)
      case (Some x)
      with a sk show ?thesis by (simp add: yaml_cursor_slice_def Let_def)
    next
      case None
      show ?thesis
      proof (cases "p_done ops (p_update ops (drop k sv) (p_new ops))")
        case True
        with a sk None init show ?thesis
          by (auto simp: yaml_cursor_slice_def cursor_done_def slice_init_def Let_def)
      next
        case False
        with a sk None have "next_ec ops n ((slice_init ops)\<lparr>m_parser := p_update ops (drop k sv) (p_new ops)\<rparr>) None
            = Some (c, None)"
          by (auto simp: yaml_cursor_slice_def cursor_done_def slice_init_def Let_def next_throwing_def
              split: option.splits prod.splits)
        from next_ec_slice_shape[OF assms init(2) this] show ?thesis .
      qed
    qed
  qed
  have 3: "yaml_cursor_stream_ec ops n src ec = Some (c, ec') \<longrightarrow> buffer_length c = 16384"
    using next_ec_stream_length[of "stream_init ops src" 16384 ops n ec c ec']
    by (auto simp: yaml_cursor_stream_ec_def Let_def buffer_length_def stream_init_def
        default_max_buffer_length_def split: if_splits)
  have 4: "yaml_cursor_stream ops n src = Some (Returned c) \<longrightarrow> buffer_length c = 16384"
    using next_ec_stream_length[of "stream_init ops src" 16384 ops n None c None]
    by (auto simp: yaml_cursor_stream_def Let_def buffer_length_def stream_init_def next_throwing_def
        default_max_buffer_length_def split: if_splits option.splits prod.splits)
  have 5: "skip_bom ops sv = (k, None) \<longrightarrow>
        yaml_cursor_slice_ec ops n sv ec =
          (if \<not> p_done ops (p_update ops (drop k sv) (p_new ops))
           then next_ec ops n ((slice_init ops)\<lparr>m_parser := p_update ops (drop k sv) (p_new ops)\<rparr>) ec
           else Some ((slice_init ops)\<lparr>m_parser := p_update ops (drop k sv) (p_new ops)\<rparr>, ec))"
    by (simp add: yaml_cursor_slice_ec_def cursor_done_def slice_init_def Let_def)
  have 6: "skip_bom ops sv = (k, Some e) \<longrightarrow> yaml_cursor_slice_ec ops n sv ec = Some (slice_init ops, Some e)"
    by (simp add: yaml_cursor_slice_ec_def)
  have 7: "skip_bom ops sv = (k, None) \<longrightarrow>
        yaml_cursor_slice ops n sv =
          (if \<not> p_done ops (p_update ops (drop k sv) (p_new ops))
           then next_throwing ops n ((slice_init ops)\<lparr>m_parser := p_update ops (drop k sv) (p_new ops)\<rparr>)
           else Some (Returned ((slice_init ops)\<lparr>m_parser := p_update ops (drop k sv) (p_new ops)\<rparr>)))"
    by (simp add: yaml_cursor_slice_def cursor_done_def slice_init_def Let_def)
  have 8: "skip_bom ops sv = (k, Some e) \<longrightarrow>
        yaml_cursor_slice ops n sv =
          Some (Thrown (ser_error e (p_line ops (p_new ops)) (p_column ops (p_new ops))) (slice_init ops))"
    by (simp add: yaml_cursor_slice_def slice_init_def Let_def)
  from 1 2 have 12: "yaml_cursor_slice_ec ops n sv ec = Some (c, ec') \<longrightarrow>
            buffer_length c = 0 \<and> m_buffer c = [] \<and> \<not> m_begin c"
    "yaml_cursor_slice ops n sv = Some (Returned c) \<longrightarrow>
            buffer_length c = 0 \<and> m_buffer c = [] \<and> \<not> m_begin c"
    by (simp_all add: slice_shape_def buffer_length_def)
  show ?thesis
    using 12 3 4 5 6 7 8 by - (intro conjI, assumption+)
qed


theorem slice_cursor_has_no_buffer_witness:
  "src_read_bounded toy_ops
   \<and> yaml_cursor_slice_ec toy_ops 3 [239, 187, 191, 91, 55, 93] None = Some (example_slice, None)
   \<and> yaml_cursor_slice toy_ops 3 [239, 187, 191, 91, 55, 93] = Some (Returned example_slice)
   \<and> buffer_length example_slice = 0 \<and> m_buffer example_slice = [] \<and> \<not> m_begin example_slice
   \<and> m_parser example_slice = \<lparr>rest = [55, 93], running = False, state = Inside 0\<rparr>
   \<and> yaml_cursor_stream_ec toy_ops 5 ([91, 55, 32, 56, 93], False) None = Some (example_primed, None)
   \<and> yaml_cursor_stream toy_ops 5 ([91, 55, 32, 56, 93], False) = Some (Returned example_primed)
   \<and> buffer_length example_primed = 16384
   \<and> skip_bom toy_ops [239, 187, 191, 91, 55, 93] = (3, None)
   \<and> \<not> p_done toy_ops (p_update toy_ops (drop 3 [239, 187, 191, 91, 55, 93]) (p_new toy_ops))
   \<and> next_throwing toy_ops 3
         ((slice_init toy_ops)\<lparr>m_parser := p_update toy_ops (drop 3 [239, 187, 191, 91, 55, 93]) (p_new toy_ops)\<rparr>)
       = Some (Returned example_slice)
   \<and> skip_bom toy_ops [255, 254, 55] = (2, Some (encoding_error 1))
   \<and> yaml_cursor_slice_ec toy_ops 3 [255, 254, 55] None = Some (slice_init toy_ops, Some (encoding_error 1))
   \<and> yaml_cursor_slice toy_ops 3 [255, 254, 55] =
        Some (Thrown (ser_error (encoding_error 1) 1 1) (slice_init toy_ops))"
proof -
  have sk: "skip_bom toy_ops [239, 187, 191, 91, 55, 93] = (3, None)"
    "skip_bom toy_ops [255, 254, 55] = (2, Some (encoding_error 1))"
    by (simp_all add: toy_ops_def bom_scan_def)
  have nd: "\<not> p_done toy_ops (p_update toy_ops (drop 3 [239, 187, 191, 91, 55, 93]) (p_new toy_ops))"
    by (simp add: toy_ops_def)
  have pos: "p_line toy_ops (p_new toy_ops) = 1" "p_column toy_ops (p_new toy_ops) = 1"
    by (simp_all add: toy_ops_def)
  have par: "m_parser example_slice = \<lparr>rest = [55, 93], running = False, state = Inside 0\<rparr>"
    by (simp add: example_slice_def)
  note a = slice_cursor_has_no_buffer[OF toy_bounded, where n = 3 and sv = "[239, 187, 191, 91, 55, 93]"
      and ec = None and c = example_slice and ec' = None and k = 3]
  note b = slice_cursor_has_no_buffer[OF toy_bounded, where n = 5 and src = "([91, 55, 32, 56, 93], False)"
      and ec = None and c = example_primed and ec' = None]
  note d = slice_cursor_has_no_buffer[OF toy_bounded, where n = 3 and sv = "[255, 254, 55]"
      and ec = None and k = 2 and e = "encoding_error 1"]
  have thrown: "yaml_cursor_slice toy_ops 3 [239, 187, 191, 91, 55, 93] = Some (Returned example_slice)"
    by (simp add: cursor_eval toy_eval example_slice_def cong: prod.case_cong_weak option.case_cong_weak)
  have stream: "yaml_cursor_stream toy_ops 5 ([91, 55, 32, 56, 93], False) = Some (Returned example_primed)"
    by (simp add: cursor_eval toy_eval example_primed_def cong: prod.case_cong_weak option.case_cong_weak)
  from a sk(1) nd thrown have nt: "next_throwing toy_ops 3
         ((slice_init toy_ops)\<lparr>m_parser := p_update toy_ops (drop 3 [239, 187, 191, 91, 55, 93]) (p_new toy_ops)\<rparr>)
       = Some (Returned example_slice)"
    by simp
  from a example_slice_constructed thrown have shape:
    "buffer_length example_slice = 0 \<and> m_buffer example_slice = [] \<and> \<not> m_begin example_slice"
    by blast
  from b example_primed_constructed have len: "buffer_length example_primed = 16384"
    by blast
  from d sk(2) pos have err: "yaml_cursor_slice_ec toy_ops 3 [255, 254, 55] None = Some (slice_init toy_ops, Some (encoding_error 1))"
    "yaml_cursor_slice toy_ops 3 [255, 254, 55] =
        Some (Thrown (ser_error (encoding_error 1) 1 1) (slice_init toy_ops))"
    by simp_all
  show ?thesis
    using toy_bounded example_slice_constructed thrown shape par example_primed_constructed stream len
      sk nd nt err
    by - (intro conjI, (assumption | simp)+)
qed

subsection \<open>Chunk lengths\<close>




subsection \<open>The encoding marker\<close>

text \<open>
  Claim C8, as stated, fails: the cursor skips one marker, once. When the content after a
  valid marker itself begins with a marker, the cursor over the whole input hands that
  second marker to the tokenizer, while the cursor over the content alone skips it. On
  \<open>EF BB BF EF BB BF 7\<close> the example tokenizer reads the unit \<open>EF\<close> as a scalar; on the
  stripped content \<open>EF BB BF 7\<close> it reads the scalar \<open>7\<close>. This holds for both variants.
\<close>

theorem second_marker_reaches_tokenizer:
  "skip_bom toy_ops [239, 187, 191, 239, 187, 191, 55] = (3, None)
   \<and> stream_events toy_ops 5 ([239, 187, 191, 239, 187, 191, 55], False) = Some ([Scalar 239], None)
   \<and> stream_events toy_ops 5 ([239, 187, 191, 55], False) = Some ([Scalar 55], None)
   \<and> slice_events toy_ops 5 [239, 187, 191, 239, 187, 191, 55] = Some ([Scalar 239], None)
   \<and> slice_events toy_ops 5 [239, 187, 191, 55] = Some ([Scalar 55], None)"
  by (simp add: stream_events_def slice_events_def cursor_eval toy_eval
      cong: prod.case_cong_weak option.case_cong_weak)

text \<open>
  Claim C8, amended. When the input is a valid marker followed by content that does not
  itself begin with a marker, the cursor delivers the same events, and ends with the same
  error code, as for the content alone.
  \<^item> Fixed-slice variant: the scan of the slice skips the marker and finds none in the
    content; both constructors then build the same cursor from the two inputs.
  \<^item> Stream variant, for a tokenizer that satisfies \<open>tokenizer_resumable\<close> and
    \<open>tokenizer_incremental\<close> and is fresh without input, over the list source: the scan of the
    first chunk skips the marker, resp. finds none, and the chunk holds content beyond it;
    whenever reading one of the two inputs completes, reading the other completes with the
    same events.

  When the scan reports a malformed marker, the constructor that sets an error code returns
  that code and the throwing one throws \<^verbatim>\<open>ser_error\<close> with it; the tokenizer has been given
  nothing, the event cache is as constructed and the consumer reads no event.
\<close>

theorem marker_skipped_once:
  "(skip_bom ops (mk @ content) = (length mk, None) \<and> skip_bom ops content = (0, None) \<longrightarrow>
       yaml_cursor_slice_ec ops n (mk @ content) ec = yaml_cursor_slice_ec ops n content ec
     \<and> yaml_cursor_slice ops n (mk @ content) = yaml_cursor_slice ops n content
     \<and> slice_events ops n (mk @ content) = slice_events ops n content)
   \<and> (tokenizer_resumable ops \<and> tokenizer_incremental ops pending \<and> reads_from_list ops
       \<and> p_source_exhausted ops (p_new ops)
       \<and> first_chunk_ok ops (mk @ content) (length mk) \<and> first_chunk_ok ops content 0 \<longrightarrow>
       (stream_events ops n (mk @ content, False) = Some (evs, err) \<longrightarrow>
          (\<exists>n'. stream_events ops n' (content, False) = Some (evs, err)))
     \<and> (stream_events ops n (content, False) = Some (evs, err) \<longrightarrow>
          (\<exists>n'. stream_events ops n' (mk @ content, False) = Some (evs, err))))
   \<and> (skip_bom ops sv = (k, Some e) \<longrightarrow>
       yaml_cursor_slice_ec ops n sv ec = Some (slice_init ops, Some e)
     \<and> slice_events ops n sv = Some ([], Some e)
     \<and> yaml_cursor_slice ops n sv =
         Some (Thrown (ser_error e (p_line ops (p_new ops)) (p_column ops (p_new ops))) (slice_init ops)))
   \<and> (\<not> p_done ops (p_new ops) \<and> \<not> p_stopped ops (p_restart ops (p_new ops))
       \<and> p_source_exhausted ops (p_restart ops (p_new ops)) \<and> \<not> src_eof ops src
       \<and> src_read ops default_max_buffer_length src = (chunk, src') \<and> chunk \<noteq> []
       \<and> skip_bom ops chunk = (k, Some e) \<longrightarrow>
       yaml_cursor_stream_ec ops (Suc n) src None =
         Some ((stream_init ops src')\<lparr>m_parser := p_restart ops (p_new ops), m_buffer := chunk\<rparr>, Some e)
     \<and> stream_events ops (Suc n) src = Some ([], Some e)
     \<and> yaml_cursor_stream ops (Suc n) src =
         Some (Thrown (ser_error e (p_line ops (p_restart ops (p_new ops)))
                                   (p_column ops (p_restart ops (p_new ops))))
                      ((stream_init ops src')\<lparr>m_parser := p_restart ops (p_new ops), m_buffer := chunk\<rparr>)))"
proof -
  have a: "skip_bom ops (mk @ content) = (length mk, None) \<and> skip_bom ops content = (0, None) \<longrightarrow>
       yaml_cursor_slice_ec ops n (mk @ content) ec = yaml_cursor_slice_ec ops n content ec
     \<and> yaml_cursor_slice ops n (mk @ content) = yaml_cursor_slice ops n content
     \<and> slice_events ops n (mk @ content) = slice_events ops n content"
    by (simp add: yaml_cursor_slice_ec_def yaml_cursor_slice_def slice_events_def del: pull_events.simps)
  have b: "(stream_events ops n (mk @ content, False) = Some (evs, err) \<longrightarrow>
          (\<exists>n'. stream_events ops n' (content, False) = Some (evs, err)))
     \<and> (stream_events ops n (content, False) = Some (evs, err) \<longrightarrow>
          (\<exists>n'. stream_events ops n' (mk @ content, False) = Some (evs, err)))"
    if h: "tokenizer_resumable ops \<and> tokenizer_incremental ops pending \<and> reads_from_list ops
       \<and> p_source_exhausted ops (p_new ops)
       \<and> first_chunk_ok ops (mk @ content) (length mk) \<and> first_chunk_ok ops content 0"
  proof -
    from h have res: "tokenizer_resumable ops" and inc: "tokenizer_incremental ops pending"
      and src: "reads_from_list ops" and fresh: "p_source_exhausted ops (p_new ops)"
      and ok: "first_chunk_ok ops (mk @ content) (length mk)" "first_chunk_ok ops content 0"
      by simp_all
    have same: "drop (length mk) (mk @ content) = drop 0 content" "drop 0 content = drop (length mk) (mk @ content)"
      by simp_all
    show ?thesis
      using stream_events_transfer[OF res inc src fresh ok(1) ok(2) same(1), of n evs err]
        stream_events_transfer[OF res inc src fresh ok(2) ok(1) same(2), of n evs err]
      by blast
  qed
  have c: "skip_bom ops sv = (k, Some e) \<longrightarrow>
       yaml_cursor_slice_ec ops n sv ec = Some (slice_init ops, Some e)
     \<and> slice_events ops n sv = Some ([], Some e)
     \<and> yaml_cursor_slice ops n sv =
         Some (Thrown (ser_error e (p_line ops (p_new ops)) (p_column ops (p_new ops))) (slice_init ops))"
    by (simp add: yaml_cursor_slice_ec_def yaml_cursor_slice_def slice_events_def slice_init_def Let_def
        del: pull_events.simps)
  have d: "\<not> p_done ops (p_new ops) \<and> \<not> p_stopped ops (p_restart ops (p_new ops))
       \<and> p_source_exhausted ops (p_restart ops (p_new ops)) \<and> \<not> src_eof ops src
       \<and> src_read ops default_max_buffer_length src = (chunk, src') \<and> chunk \<noteq> []
       \<and> skip_bom ops chunk = (k, Some e) \<longrightarrow>
       yaml_cursor_stream_ec ops (Suc n) src None =
         Some ((stream_init ops src')\<lparr>m_parser := p_restart ops (p_new ops), m_buffer := chunk\<rparr>, Some e)
     \<and> stream_events ops (Suc n) src = Some ([], Some e)
     \<and> yaml_cursor_stream ops (Suc n) src =
         Some (Thrown (ser_error e (p_line ops (p_restart ops (p_new ops)))
                                   (p_column ops (p_restart ops (p_new ops))))
                      ((stream_init ops src')\<lparr>m_parser := p_restart ops (p_new ops), m_buffer := chunk\<rparr>))"
    using malformed_first_chunk[of ops src chunk src' k e n] by blast
  from b have b': "tokenizer_resumable ops \<and> tokenizer_incremental ops pending \<and> reads_from_list ops
       \<and> p_source_exhausted ops (p_new ops)
       \<and> first_chunk_ok ops (mk @ content) (length mk) \<and> first_chunk_ok ops content 0 \<longrightarrow>
       (stream_events ops n (mk @ content, False) = Some (evs, err) \<longrightarrow>
          (\<exists>n'. stream_events ops n' (content, False) = Some (evs, err)))
     \<and> (stream_events ops n (content, False) = Some (evs, err) \<longrightarrow>
          (\<exists>n'. stream_events ops n' (mk @ content, False) = Some (evs, err)))"
    by (rule impI)
  show ?thesis
    using a b' c d by - (intro conjI, assumption+)
qed

theorem marker_skipped_once_witness:
  "skip_bom toy_ops [239, 187, 191, 91, 55, 93] = (3, None) \<and> skip_bom toy_ops [91, 55, 93] = (0, None)
   \<and> yaml_cursor_slice_ec toy_ops 6 [239, 187, 191, 91, 55, 93] None = yaml_cursor_slice_ec toy_ops 6 [91, 55, 93] None
   \<and> yaml_cursor_slice toy_ops 6 [239, 187, 191, 91, 55, 93] = yaml_cursor_slice toy_ops 6 [91, 55, 93]
   \<and> slice_events toy_ops 6 [239, 187, 191, 91, 55, 93] = Some ([BeginArray, Scalar 55, EndArray], None)
   \<and> slice_events toy_ops 6 [91, 55, 93] = Some ([BeginArray, Scalar 55, EndArray], None)
   \<and> tokenizer_resumable toy_ops \<and> tokenizer_incremental toy_ops rest \<and> reads_from_list toy_ops
   \<and> p_source_exhausted toy_ops (p_new toy_ops)
   \<and> first_chunk_ok toy_ops [239, 187, 191, 91, 55, 93] 3 \<and> first_chunk_ok toy_ops [91, 55, 93] 0
   \<and> stream_events toy_ops 6 ([239, 187, 191, 91, 55, 93], False) = Some ([BeginArray, Scalar 55, EndArray], None)
   \<and> (\<exists>n'. stream_events toy_ops n' ([91, 55, 93], False) = Some ([BeginArray, Scalar 55, EndArray], None))
   \<and> stream_events toy_ops 6 ([91, 55, 93], False) = Some ([BeginArray, Scalar 55, EndArray], None)
   \<and> (\<exists>n'. stream_events toy_ops n' ([239, 187, 191, 91, 55, 93], False)
              = Some ([BeginArray, Scalar 55, EndArray], None))
   \<and> skip_bom toy_ops [255, 254, 55] = (2, Some (encoding_error 1))
   \<and> yaml_cursor_slice_ec toy_ops 6 [255, 254, 55] None = Some (slice_init toy_ops, Some (encoding_error 1))
   \<and> slice_events toy_ops 6 [255, 254, 55] = Some ([], Some (encoding_error 1))
   \<and> yaml_cursor_slice toy_ops 6 [255, 254, 55] =
        Some (Thrown (ser_error (encoding_error 1) 1 1) (slice_init toy_ops))
   \<and> \<not> p_done toy_ops (p_new toy_ops) \<and> \<not> p_stopped toy_ops (p_restart toy_ops (p_new toy_ops))
   \<and> p_source_exhausted toy_ops (p_restart toy_ops (p_new toy_ops))
   \<and> \<not> src_eof toy_ops ([255, 254, 55], False)
   \<and> src_read toy_ops default_max_buffer_length ([255, 254, 55], False) = ([255, 254, 55], ([], True))
   \<and> yaml_cursor_stream_ec toy_ops (Suc 4) ([255, 254, 55], False) None =
        Some ((stream_init toy_ops ([], True))
                \<lparr>m_parser := p_restart toy_ops (p_new toy_ops), m_buffer := [255, 254, 55]\<rparr>,
              Some (encoding_error 1))
   \<and> m_cursor_visitor ((stream_init toy_ops ([], True))
                \<lparr>m_parser := p_restart toy_ops (p_new toy_ops), m_buffer := [255, 254, 55]\<rparr>) = NullEvent
   \<and> stream_events toy_ops (Suc 4) ([255, 254, 55], False) = Some ([], Some (encoding_error 1))
   \<and> yaml_cursor_stream toy_ops (Suc 4) ([255, 254, 55], False) =
        Some (Thrown (ser_error (encoding_error 1) 1 1)
                ((stream_init toy_ops ([], True))
                   \<lparr>m_parser := p_restart toy_ops (p_new toy_ops), m_buffer := [255, 254, 55]\<rparr>))"
proof -
  let ?evs = "[BeginArray, Scalar 55, EndArray]"
  have sk: "skip_bom toy_ops [239, 187, 191, 91, 55, 93] = (3, None)" "skip_bom toy_ops [91, 55, 93] = (0, None)"
    "skip_bom toy_ops [255, 254, 55] = (2, Some (encoding_error 1))"
    by (simp_all add: toy_ops_def bom_scan_def)
  have fc: "first_chunk_ok toy_ops [239, 187, 191, 91, 55, 93] 3" "first_chunk_ok toy_ops [91, 55, 93] 0"
    by (simp_all add: first_chunk_ok_def toy_ops_def bom_scan_def default_max_buffer_length_def)
  have fresh: "p_source_exhausted toy_ops (p_new toy_ops)"
    by (simp add: toy_ops_def)
  have pre: "\<not> p_done toy_ops (p_new toy_ops)" "\<not> p_stopped toy_ops (p_restart toy_ops (p_new toy_ops))"
    "p_source_exhausted toy_ops (p_restart toy_ops (p_new toy_ops))"
    "\<not> src_eof toy_ops ([255, 254, 55], False)"
    "src_read toy_ops default_max_buffer_length ([255, 254, 55], False) = ([255, 254, 55], ([], True))"
    by (simp_all add: toy_ops_def list_read_def default_max_buffer_length_def)
  have pos: "p_line toy_ops (p_new toy_ops) = 1" "p_column toy_ops (p_new toy_ops) = 1"
    "p_line toy_ops (p_restart toy_ops (p_new toy_ops)) = 1"
    "p_column toy_ops (p_restart toy_ops (p_new toy_ops)) = 1"
    by (simp_all add: toy_ops_def)
  have cache: "m_cursor_visitor ((stream_init toy_ops ([], True))
                \<lparr>m_parser := p_restart toy_ops (p_new toy_ops), m_buffer := [255, 254, 55]\<rparr>) = NullEvent"
    by (simp add: stream_init_def toy_ops_def)
  have ev: "slice_events toy_ops 6 [239, 187, 191, 91, 55, 93] = Some (?evs, None)"
    "slice_events toy_ops 6 [91, 55, 93] = Some (?evs, None)"
    "stream_events toy_ops 6 ([239, 187, 191, 91, 55, 93], False) = Some (?evs, None)"
    "stream_events toy_ops 6 ([91, 55, 93], False) = Some (?evs, None)"
    by (simp_all add: stream_events_def slice_events_def cursor_eval toy_eval
        cong: prod.case_cong_weak option.case_cong_weak)
  have app: "[239, 187, 191] @ [91, 55, 93] = [239, 187, 191, 91, 55, 93]" "length [239, 187, 191::nat] = 3"
    by simp_all
  note a = marker_skipped_once[where ops = toy_ops and mk = "[239, 187, 191]" and content = "[91, 55, 93]"
      and n = 6 and ec = None, unfolded app, THEN conjunct1]
  note b = marker_skipped_once[where ops = toy_ops and mk = "[239, 187, 191]" and content = "[91, 55, 93]"
      and n = 6 and pending = rest and evs = ?evs and err = None, unfolded app, THEN conjunct2, THEN conjunct1]
  note c = marker_skipped_once[where ops = toy_ops and sv = "[255, 254, 55]" and k = 2
      and e = "encoding_error 1" and n = 6 and ec = None, THEN conjunct2, THEN conjunct2, THEN conjunct1]
  note d = marker_skipped_once[where ops = toy_ops and src = "([255, 254, 55], False)" and k = 2
      and e = "encoding_error 1" and n = 4 and chunk = "[255, 254, 55]" and src' = "([], True)", THEN conjunct2, THEN conjunct2, THEN conjunct2]
  from a sk have a': "yaml_cursor_slice_ec toy_ops 6 [239, 187, 191, 91, 55, 93] None = yaml_cursor_slice_ec toy_ops 6 [91, 55, 93] None"
    "yaml_cursor_slice toy_ops 6 [239, 187, 191, 91, 55, 93] = yaml_cursor_slice toy_ops 6 [91, 55, 93]"
    by blast+
  from b toy_resumable toy_incremental toy_reads_from_list fresh fc ev
  have b': "\<exists>n'. stream_events toy_ops n' ([91, 55, 93], False) = Some (?evs, None)"
    "\<exists>n'. stream_events toy_ops n' ([239, 187, 191, 91, 55, 93], False) = Some (?evs, None)"
    by blast+
  from c sk pos have c': "yaml_cursor_slice_ec toy_ops 6 [255, 254, 55] None = Some (slice_init toy_ops, Some (encoding_error 1))"
    "slice_events toy_ops 6 [255, 254, 55] = Some ([], Some (encoding_error 1))"
    "yaml_cursor_slice toy_ops 6 [255, 254, 55] =
        Some (Thrown (ser_error (encoding_error 1) 1 1) (slice_init toy_ops))"
    by simp_all
  from d pre sk pos have d': "yaml_cursor_stream_ec toy_ops (Suc 4) ([255, 254, 55], False) None =
        Some ((stream_init toy_ops ([], True))
                \<lparr>m_parser := p_restart toy_ops (p_new toy_ops), m_buffer := [255, 254, 55]\<rparr>,
              Some (encoding_error 1))"
    "stream_events toy_ops (Suc 4) ([255, 254, 55], False) = Some ([], Some (encoding_error 1))"
    "yaml_cursor_stream toy_ops (Suc 4) ([255, 254, 55], False) =
        Some (Thrown (ser_error (encoding_error 1) 1 1)
                ((stream_init toy_ops ([], True))
                   \<lparr>m_parser := p_restart toy_ops (p_new toy_ops), m_buffer := [255, 254, 55]\<rparr>))"
    by simp_all
  show ?thesis
    using sk a' ev toy_resumable toy_incremental toy_reads_from_list fresh fc b' c' pre d' cache
    by - (intro conjI, (assumption | (elim conjE, assumption))+)
qed

end
